theory Spec2Isabelle
  imports Main "HOL-Library.AList"
begin

section \<open>NFA states, fragments and the builder's arena\<close>

text \<open>
  \<^verbatim>\<open>struct State { int id; map<char, vector<shared_ptr<State>>> transitions; bool isFinal; }\<close>
  (Final.cpp 54-60, chessNot.cpp 42-47).  The builder keeps every state it allocates in
  the vector \<^verbatim>\<open>states\<close>; \<^verbatim>\<open>createState\<close> gives the new state the id
  \<^verbatim>\<open>stateCounter++\<close> and appends it, so the id of a state is its index in that vector.
  The model addresses a state by this index: a \<^verbatim>\<open>shared_ptr<State>\<close> is a \<open>nat\<close>, the
  vector is a \<open>State list\<close>, and mutation through a pointer is an update of the list.
  The map of a state is an association list with unique keys; only lookups of it are
  observed.
\<close>

record State =
  transitions :: "(char \<times> nat list) list"
  isFinal :: bool

text \<open>The epsilon sentinel \<^verbatim>\<open>'\0'\<close>.\<close>

abbreviation epsilon :: char where
  "epsilon \<equiv> CHR 0x00"

record NFAPtr =
  frag_start :: nat
  frag_end :: nat

text \<open>
  A member function of the builder that returns a value: \<open>Built A v\<close> is the arena it
  leaves and the value it returns.
\<close>

datatype 'a built = Built (arena_of: "State list") (ret_of: 'a)

definition createState :: "State list \<Rightarrow> nat built" where
  "createState A = Built (A @ [\<lparr>transitions = [], isFinal = False\<rparr>]) (length A)"

text \<open>\<^verbatim>\<open>q->transitions[c]\<close> read as a vector: empty when the key is absent.\<close>

definition succs :: "State list \<Rightarrow> nat \<Rightarrow> char \<Rightarrow> nat list" where
  "succs A q c =
     (if q < length A
      then (case map_of (transitions (A ! q)) c of None \<Rightarrow> [] | Some ts \<Rightarrow> ts)
      else [])"

definition is_final :: "State list \<Rightarrow> nat \<Rightarrow> bool" where
  "is_final A q = (q < length A \<and> isFinal (A ! q))"

text \<open>
  A write through a pointer, \<^verbatim>\<open>q->field = ...\<close>: the state at index \<open>q\<close> is replaced by
  \<open>f\<close> of it and every other state is kept.  Every pointer of the program is an index
  below the length of the arena; beyond it the arena is left as it is.
\<close>

fun update_state :: "nat \<Rightarrow> (State \<Rightarrow> State) \<Rightarrow> State list \<Rightarrow> State list" where
  "update_state q f [] = []"
| "update_state q f (st # A) =
     (case q of 0 \<Rightarrow> f st # A | Suc k \<Rightarrow> st # update_state k f A)"

text \<open>\<^verbatim>\<open>q->transitions[c].push_back(t)\<close> and \<^verbatim>\<open>q->isFinal = b\<close>.\<close>

definition push_successor :: "char \<Rightarrow> nat \<Rightarrow> State \<Rightarrow> State" where
  "push_successor c t st =
     st\<lparr>transitions :=
          AList.update c
            ((case map_of (transitions st) c of None \<Rightarrow> [] | Some ts \<Rightarrow> ts) @ [t])
            (transitions st)\<rparr>"

definition add_transition :: "nat \<Rightarrow> char \<Rightarrow> nat \<Rightarrow> State list \<Rightarrow> State list" where
  "add_transition q c t A = update_state q (push_successor c t) A"

definition mark_final :: "bool \<Rightarrow> State \<Rightarrow> State" where
  "mark_final b st = st\<lparr>isFinal := b\<rparr>"

definition set_final :: "nat \<Rightarrow> bool \<Rightarrow> State list \<Rightarrow> State list" where
  "set_final q b A = update_state q (mark_final b) A"

section \<open>Character classes\<close>

text \<open>
  \<^verbatim>\<open>char\<close> is taken as the signed byte it is on x86: \<open>char_val\<close> is the value that
  \<^verbatim>\<open>start > end\<close> and \<^verbatim>\<open>c <= end\<close> compare.  A \<^verbatim>\<open>set<char>\<close> is a list kept in
  increasing order of that value, without duplicates.
\<close>

definition char_val :: "char \<Rightarrow> int" where
  "char_val c = (let n = of_char c in if n < 128 then n else n - 256)"

definition insert_char :: "char \<Rightarrow> char list \<Rightarrow> char list" where
  "insert_char c cs = (if c \<in> set cs then cs else insort_key char_val c cs)"

fun insert_chars :: "char list \<Rightarrow> char list \<Rightarrow> char list" where
  "insert_chars [] validChars = validChars"
| "insert_chars (c # cs) validChars = insert_chars cs (insert_char c validChars)"

text \<open>
  The characters that \<^verbatim>\<open>for (char c = start; c <= end; c++)\<close> visits.  When \<^verbatim>\<open>end\<close> is
  the largest \<^verbatim>\<open>char\<close> (127) the condition never fails, the counter wraps and the loop
  does not exit: \<open>Diverges\<close>.
\<close>

definition range_chars :: "char \<Rightarrow> char \<Rightarrow> char list" where
  "range_chars s e = map char_of [char_val s .. char_val e]"

datatype error = InvalidFormat | InvalidRange | Diverges

text \<open>
  The scanning loop of \<^verbatim>\<open>parseCharacterClass\<close> (Final.cpp 210-225, chessNot.cpp 360-371)
  over the part of \<^verbatim>\<open>content\<close> from index \<^verbatim>\<open>i\<close> on: \<^verbatim>\<open>i + 2 < content.length()\<close> says
  that three characters are left.
\<close>

fun scanContent :: "string \<Rightarrow> char list \<Rightarrow> error + char list" where
  "scanContent (s # m # e # rest) validChars =
     (if m = CHR ''-''
      then (if char_val s > char_val e then Inl InvalidRange
            else if char_val e = 127 then Inl Diverges
            else scanContent rest (insert_chars (range_chars s e) validChars))
      else scanContent (m # e # rest) (insert_char s validChars))"
| "scanContent (s # rest) validChars = scanContent rest (insert_char s validChars)"
| "scanContent [] validChars = Inr validChars"

definition bad_format :: "string \<Rightarrow> bool" where
  "bad_format charClass =
     (charClass = [] \<or> hd charClass \<noteq> CHR ''['' \<or> last charClass \<noteq> CHR '']'')"

definition content_of :: "string \<Rightarrow> string" where
  "content_of charClass = take (length charClass - 2) (drop 1 charClass)"

text \<open>Final.cpp 202-226: both failures are \<^verbatim>\<open>throw invalid_argument(...)\<close>.\<close>

definition parseCharacterClass :: "string \<Rightarrow> char list \<Rightarrow> error + char list" where
  "parseCharacterClass charClass validChars =
     (if bad_format charClass then Inl InvalidFormat
      else scanContent (content_of charClass) validChars)"

text \<open>
  chessNot.cpp 353-372: the format check prints \<^verbatim>\<open>[ERROR] Invalid character class format.\<close>
  to \<^verbatim>\<open>cerr\<close> and returns normally, leaving \<^verbatim>\<open>validChars\<close> as it was; only the range
  check throws.
\<close>

definition chess_parseCharacterClass :: "string \<Rightarrow> char list \<Rightarrow> error + char list" where
  "chess_parseCharacterClass charClass validChars =
     (if bad_format charClass then Inr validChars
      else scanContent (content_of charClass) validChars)"

section \<open>The combinators\<close>

text \<open>
  Each combinator takes the arena and returns the arena it leaves with the fragment it
  returns.  Final.cpp 181-284; chessNot.cpp 77-121 and 374-388 differ only in the two
  leaf constructors, which there also set \<^verbatim>\<open>end->isFinal = true\<close>.  The statements that
  mutate states through the pointers are listed in the source's order and run by
  \<open>run_steps\<close>.
\<close>

fun run_steps :: "('s \<Rightarrow> 's) list \<Rightarrow> 's \<Rightarrow> 's" where
  "run_steps [] A = A"
| "run_steps (step # steps) A = run_steps steps (step A)"

definition createCharNFA :: "char \<Rightarrow> State list \<Rightarrow> NFAPtr built" where
  "createCharNFA c A =
     (case createState A of Built A1 s \<Rightarrow>
      case createState A1 of Built A2 e \<Rightarrow>
        Built (add_transition s c e A2) \<lparr>frag_start = s, frag_end = e\<rparr>)"

definition chess_createCharNFA :: "char \<Rightarrow> State list \<Rightarrow> NFAPtr built" where
  "chess_createCharNFA c A =
     (case createState A of Built A1 s \<Rightarrow>
      case createState A1 of Built A2 e \<Rightarrow>
        Built (run_steps [add_transition s c e, set_final e True] A2)
              \<lparr>frag_start = s, frag_end = e\<rparr>)"

text \<open>\<^verbatim>\<open>for (char c : validChars) start->transitions[c].push_back(end);\<close>\<close>

fun add_class_transitions :: "nat \<Rightarrow> nat \<Rightarrow> char list \<Rightarrow> State list \<Rightarrow> State list" where
  "add_class_transitions s e [] A = A"
| "add_class_transitions s e (c # validChars) A =
     add_class_transitions s e validChars (add_transition s c e A)"

definition createCharClassNFA :: "string \<Rightarrow> State list \<Rightarrow> error + NFAPtr built" where
  "createCharClassNFA charClass A =
     (case createState A of Built A1 s \<Rightarrow>
      case createState A1 of Built A2 e \<Rightarrow>
      case parseCharacterClass charClass [] of
        Inl err \<Rightarrow> Inl err
      | Inr validChars \<Rightarrow>
          Inr (Built (add_class_transitions s e validChars A2)
                     \<lparr>frag_start = s, frag_end = e\<rparr>))"

definition chess_createCharClassNFA :: "string \<Rightarrow> State list \<Rightarrow> error + NFAPtr built" where
  "chess_createCharClassNFA charClass A =
     (case createState A of Built A1 s \<Rightarrow>
      case createState A1 of Built A2 e \<Rightarrow>
      case chess_parseCharacterClass charClass [] of
        Inl err \<Rightarrow> Inl err
      | Inr validChars \<Rightarrow>
          Inr (Built (run_steps [add_class_transitions s e validChars, set_final e True] A2)
                     \<lparr>frag_start = s, frag_end = e\<rparr>))"

definition concatenate :: "NFAPtr \<Rightarrow> NFAPtr \<Rightarrow> State list \<Rightarrow> NFAPtr built" where
  "concatenate a b A =
     Built (run_steps
              [add_transition (frag_end a) epsilon (frag_start b),
               set_final (frag_end a) False] A)
           \<lparr>frag_start = frag_start a, frag_end = frag_end b\<rparr>"

definition unionNFA :: "NFAPtr \<Rightarrow> NFAPtr \<Rightarrow> State list \<Rightarrow> NFAPtr built" where
  "unionNFA a b A =
     (case createState A of Built A1 s \<Rightarrow>
      case createState A1 of Built A2 e \<Rightarrow>
        Built (run_steps
                 [add_transition s epsilon (frag_start a),
                  add_transition s epsilon (frag_start b),
                  add_transition (frag_end a) epsilon e,
                  add_transition (frag_end b) epsilon e,
                  set_final (frag_end a) False,
                  set_final (frag_end b) False,
                  set_final e True] A2)
              \<lparr>frag_start = s, frag_end = e\<rparr>)"

definition kleeneStar :: "NFAPtr \<Rightarrow> State list \<Rightarrow> NFAPtr built" where
  "kleeneStar a A =
     (case createState A of Built A1 s \<Rightarrow>
      case createState A1 of Built A2 e \<Rightarrow>
        Built (run_steps
                 [add_transition s epsilon (frag_start a),
                  add_transition s epsilon e,
                  add_transition (frag_end a) epsilon (frag_start a),
                  add_transition (frag_end a) epsilon e,
                  set_final (frag_end a) False,
                  set_final e True] A2)
              \<lparr>frag_start = s, frag_end = e\<rparr>)"

text \<open>\<^verbatim>\<open>concatenate(a, kleeneStar(a))\<close>: the star is built first, on the states of \<open>a\<close> themselves.\<close>

definition oneOrMore :: "NFAPtr \<Rightarrow> State list \<Rightarrow> NFAPtr built" where
  "oneOrMore a A = (case kleeneStar a A of Built A1 st \<Rightarrow> concatenate a st A1)"

definition zeroOrOne :: "NFAPtr \<Rightarrow> State list \<Rightarrow> NFAPtr built" where
  "zeroOrOne a A =
     (case createState A of Built A1 s \<Rightarrow>
      case createState A1 of Built A2 e \<Rightarrow>
        Built (run_steps
                 [add_transition s epsilon (frag_start a),
                  add_transition s epsilon e,
                  add_transition (frag_end a) epsilon e,
                  set_final (frag_end a) False,
                  set_final e True] A2)
              \<lparr>frag_start = s, frag_end = e\<rparr>)"

section \<open>Sets of states, the alphabet and the epsilon closure\<close>

text \<open>
  A \<^verbatim>\<open>set<shared_ptr<State>>\<close> or \<^verbatim>\<open>set<int>\<close> is a list of indices in increasing order
  without duplicates.  (The source orders the pointers by address; no result depends on
  that order, since the sets are only tested for membership and equality and iterated to
  build other sets.)
\<close>

definition insert_state :: "nat \<Rightarrow> nat list \<Rightarrow> nat list" where
  "insert_state q S = (if q \<in> set S then S else insort q S)"

fun insert_states :: "nat list \<Rightarrow> nat list \<Rightarrow> nat list" where
  "insert_states [] S = S"
| "insert_states (q # qs) S = insert_states qs (insert_state q S)"

text \<open>The map \<^verbatim>\<open>state->transitions\<close> as the list of its entries.\<close>

definition trans_of :: "State list \<Rightarrow> nat \<Rightarrow> (char \<times> nat list) list" where
  "trans_of A q = (if q < length A then transitions (A ! q) else [])"

text \<open>
  \<^verbatim>\<open>collectAlphabet\<close> (Final.cpp 444-455, chessNot.cpp 390-400): a depth-first traversal.
  The two reference parameters \<^verbatim>\<open>alphabet\<close> and \<^verbatim>\<open>visited\<close> are threaded through the
  calls; \<open>collectTransitions\<close> is the loop over the entries of the map and
  \<open>collectTargets\<close> the loop over one vector of successors.
\<close>

function collectAlphabet :: "State list \<Rightarrow> nat \<Rightarrow> char list \<times> nat list \<Rightarrow> char list \<times> nat list"
  and collectTransitions :: "State list \<Rightarrow> (char \<times> nat list) list \<Rightarrow> char list \<times> nat list \<Rightarrow> char list \<times> nat list"
  and collectTargets :: "State list \<Rightarrow> nat list \<Rightarrow> char list \<times> nat list \<Rightarrow> char list \<times> nat list"
where
  "collectAlphabet A state (alphabet, visited) =
     (if state \<in> set visited then (alphabet, visited)
      else collectTransitions A (trans_of A state) (alphabet, insert_state state visited))"
| "collectTransitions A [] acc = acc"
| "collectTransitions A ((symbol, nexts) # rest) (alphabet, visited) =
     collectTransitions A rest
       (collectTargets A nexts
          (if symbol \<noteq> epsilon then insert_char symbol alphabet else alphabet, visited))"
| "collectTargets A [] acc = acc"
| "collectTargets A (nextState # rest) acc = collectTargets A rest (collectAlphabet A nextState acc)"
  by pat_completeness auto


definition targets :: "State list \<Rightarrow> nat set" where
  "targets A = (\<Union>s \<in> set A. \<Union>p \<in> set (transitions s). set (snd p))"

lemma finite_targets [simp]: "finite (targets A)"
  by (simp add: targets_def)

lemma trans_of_targets: "(c, ts) \<in> set (trans_of A q) \<Longrightarrow> set ts \<subseteq> targets A"
proof -
  assume a: "(c, ts) \<in> set (trans_of A q)"
  then have q: "q < length A" and m: "(c, ts) \<in> set (transitions (A ! q))"
    by (auto simp: trans_of_def split: if_splits)
  from q have "A ! q \<in> set A" by simp
  with m show ?thesis unfolding targets_def by force
qed

lemma set_insert_state [simp]: "set (insert_state q S) = insert q (set S)"
  by (auto simp: insert_state_def set_insort_key)

lemma collect_visited_mono_dom:
  "collectAlphabet_collectTransitions_collectTargets_dom (Inl (A, q, acc)) \<Longrightarrow>
     set (snd acc) \<subseteq> set (snd (collectAlphabet A q acc))"
  "collectAlphabet_collectTransitions_collectTargets_dom (Inr (Inl (A, trs, acc))) \<Longrightarrow>
     set (snd acc) \<subseteq> set (snd (collectTransitions A trs acc))"
  "collectAlphabet_collectTransitions_collectTargets_dom (Inr (Inr (A, ts, acc))) \<Longrightarrow>
     set (snd acc) \<subseteq> set (snd (collectTargets A ts acc))"
proof (induct rule: collectAlphabet_collectTransitions_collectTargets.pinduct)
  case (1 A state alphabet visited)
  then show ?case by (auto simp: collectAlphabet.psimps)
next
  case (2 A acc)
  then show ?case by (simp add: collectTransitions.psimps)
next
  case (3 A symbol nexts rest alphabet visited)
  then show ?case by (auto simp: collectTransitions.psimps)
next
  case (4 A acc)
  then show ?case by (simp add: collectTargets.psimps)
next
  case (5 A nextState rest acc)
  then show ?case by (auto simp: collectTargets.psimps)
qed

definition collect_measure ::
  "(State list \<times> nat \<times> char list \<times> nat list) +
   (State list \<times> (char \<times> nat list) list \<times> char list \<times> nat list) +
   (State list \<times> nat list \<times> char list \<times> nat list) \<Rightarrow> nat set \<times> nat \<times> nat" where
  "collect_measure x =
     (case x of
        Inl (A, q, al, vis) \<Rightarrow> (insert q (targets A) - set vis, 0, 0)
      | Inr (Inl (A, trs, al, vis)) \<Rightarrow>
          ((targets A \<union> (\<Union>p \<in> set trs. set (snd p))) - set vis, 2, length trs)
      | Inr (Inr (A, ts, al, vis)) \<Rightarrow> ((targets A \<union> set ts) - set vis, 1, length ts))"

lemma lex_subset_step:
  "finite Y \<Longrightarrow> X \<subseteq> Y \<Longrightarrow> (b, b') \<in> less_than <*lex*> less_than \<Longrightarrow>
     ((X, b), (Y, b')) \<in> finite_psubset <*lex*> less_than <*lex*> less_than"
  by (auto simp: finite_psubset_def)

termination collectAlphabet
proof (relation "inv_image (finite_psubset <*lex*> less_than <*lex*> less_than) collect_measure",
       goal_cases)
  case 1
  show ?case by (simp add: wf_lex_prod)
next
  case (2 A state alphabet visited)
  have "targets A \<union> (\<Union>p \<in> set (trans_of A state). set (snd p)) = targets A"
    using trans_of_targets[of _ _ A state] by fastforce
  with 2 show ?case
    by (auto simp: collect_measure_def finite_psubset_def)
next
  case (3 A symbol nexts rest alphabet visited)
  show ?case
    by (auto simp: collect_measure_def intro!: lex_subset_step)
next
  case (4 A symbol nexts rest alphabet visited)
  from collect_visited_mono_dom(3)[OF 4]
  show ?case
    by (cases "collectTargets A nexts (if symbol \<noteq> epsilon then insert_char symbol alphabet else alphabet, visited)")
       (auto simp: collect_measure_def intro!: lex_subset_step)
next
  case (5 A nextState rest acc)
  show ?case
    by (cases acc) (auto simp: collect_measure_def intro!: lex_subset_step)
next
  case (6 A nextState rest acc)
  from collect_visited_mono_dom(1)[OF 6]
  show ?case
    by (cases acc; cases "collectAlphabet A nextState acc")
       (auto simp: collect_measure_def intro!: lex_subset_step)
qed


definition getAlphabet :: "State list \<Rightarrow> NFAPtr \<Rightarrow> char list" where
  "getAlphabet A nfa = fst (collectAlphabet A (frag_start nfa) ([], []))"

text \<open>
  \<^verbatim>\<open>epsilonClosure\<close> (Final.cpp 348-368, chessNot.cpp 281-295).  \<open>push_eps\<close> is the loop
  over \<^verbatim>\<open>current->transitions['\0']\<close>, \<open>eclose_loop\<close> the loop over the stack (the head
  of the list is the top).
\<close>

fun push_eps :: "nat list \<Rightarrow> nat list \<Rightarrow> nat list \<Rightarrow> nat list \<times> nat list" where
  "push_eps [] stk closure = (stk, closure)"
| "push_eps (nextState # rest) stk closure =
     (if nextState \<in> set closure then push_eps rest stk closure
      else push_eps rest (nextState # stk) (insert_state nextState closure))"

lemma push_eps_set:
  "push_eps ns stk cl = (stk', cl') \<Longrightarrow> set cl' = set cl \<union> set ns"
  by (induction ns arbitrary: stk cl) (auto split: if_splits)

lemma push_eps_progress:
  "push_eps ns stk cl = (stk', cl') \<Longrightarrow> (stk' = stk \<and> cl' = cl) \<or> set cl \<subset> set cl'"
proof (induction ns arbitrary: stk cl)
  case Nil
  then show ?case by simp
next
  case (Cons n ns)
  show ?case
  proof (cases "n \<in> set cl")
    case True
    with Cons show ?thesis by simp
  next
    case False
    with Cons.prems have "push_eps ns (n # stk) (insert_state n cl) = (stk', cl')" by simp
    from push_eps_set[OF this] False show ?thesis by auto
  qed
qed

lemma succs_targets: "set (succs A q c) \<subseteq> targets A"
proof (cases "q < length A")
  case True
  show ?thesis
  proof (cases "map_of (transitions (A ! q)) c")
    case None
    with True show ?thesis by (simp add: succs_def)
  next
    case (Some ts)
    then have "(c, ts) \<in> set (trans_of A q)" using True by (simp add: trans_of_def map_of_SomeD)
    from trans_of_targets[OF this] Some True show ?thesis by (simp add: succs_def)
  qed
next
  case False
  then show ?thesis by (simp add: succs_def)
qed

function eclose_loop :: "State list \<Rightarrow> nat list \<Rightarrow> nat list \<Rightarrow> nat list" where
  "eclose_loop A [] closure = closure"
| "eclose_loop A (current # stk) closure =
     (case push_eps (succs A current epsilon) stk closure of
        (stk', closure') \<Rightarrow> eclose_loop A stk' closure')"
  by pat_completeness auto

termination
proof (relation "inv_image (finite_psubset <*lex*> less_than)
                   (\<lambda>(A, stk, cl). (targets A - set cl, length stk))", goal_cases)
  case 1
  show ?case by (simp add: wf_lex_prod)
next
  case (2 A current stk closure stk' closure')
  then have pe: "push_eps (succs A current epsilon) stk closure = (stk', closure')" by simp
  from push_eps_set[OF pe] have s: "set closure' = set closure \<union> set (succs A current epsilon)" .
  from push_eps_progress[OF pe] show ?case
  proof
    assume "stk' = stk \<and> closure' = closure"
    then show ?thesis by simp
  next
    assume "set closure \<subset> set closure'"
    with s succs_targets[of A current epsilon]
    have "targets A - set closure' \<subset> targets A - set closure" by blast
    then show ?thesis by (simp add: finite_psubset_def)
  qed
qed

definition epsilonClosure :: "State list \<Rightarrow> nat list \<Rightarrow> nat list \<Rightarrow> nat list" where
  "epsilonClosure A states closure = eclose_loop A (rev states) (insert_states states closure)"

section \<open>Subset construction\<close>

text \<open>
  \<^verbatim>\<open>struct DFAState\<close> (Final.cpp 69-77).  \<^verbatim>\<open>convertToDFA\<close> gives the DFA states the ids
  0, 1, 2, ... in the order it appends them to \<^verbatim>\<open>dfaStates\<close>, so a
  \<^verbatim>\<open>shared_ptr<DFAState>\<close> is an index into that vector; the function returns the vector, whose
  entry 0 is \<^verbatim>\<open>startDFA\<close>.
\<close>

record DFAState =
  nfaStates :: "nat list"
  dfa_transitions :: "(char \<times> nat) list"
  dfa_isFinal :: bool

text \<open>
  The two inner loops of \<^verbatim>\<open>convertToDFA\<close> that collect \<^verbatim>\<open>nextNFAStates\<close>, and the loop
  that looks for a final state in a closure.
\<close>

fun move_from :: "State list \<Rightarrow> char \<Rightarrow> nat list \<Rightarrow> nat list \<Rightarrow> nat list" where
  "move_from A c [] nextNFAStates = nextNFAStates"
| "move_from A c (nfaState # rest) nextNFAStates =
     move_from A c rest (insert_states (succs A nfaState c) nextNFAStates)"

definition nfa_move :: "State list \<Rightarrow> nat list \<Rightarrow> char \<Rightarrow> nat list" where
  "nfa_move A S c = move_from A c S []"

definition any_final :: "State list \<Rightarrow> nat list \<Rightarrow> bool" where
  "any_final A S = list_ex (is_final A) S"

definition new_dfa_state :: "State list \<Rightarrow> nat list \<Rightarrow> DFAState" where
  "new_dfa_state A closure =
     \<lparr>nfaStates = closure, dfa_transitions = [], dfa_isFinal = any_final A closure\<rparr>"

text \<open>The locals of \<^verbatim>\<open>convertToDFA\<close> that its loops change.\<close>

datatype dfa_work = Work "(nat list \<times> nat) list" "DFAState list" "nat list"

datatype dfa_target = Target dfa_work nat

fun register_closure :: "State list \<Rightarrow> nat list \<Rightarrow> dfa_work \<Rightarrow> dfa_target" where
  "register_closure A nextClosure (Work dfaStateMap dfaStates unprocessed) =
     (case map_of dfaStateMap nextClosure of
        None \<Rightarrow>
          Target (Work (AList.update nextClosure (length dfaStates) dfaStateMap)
                       (dfaStates @ [new_dfa_state A nextClosure])
                       (length dfaStates # unprocessed))
                 (length dfaStates)
      | Some target \<Rightarrow> Target (Work dfaStateMap dfaStates unprocessed) target)"

fun set_dfa_transition :: "nat \<Rightarrow> char \<Rightarrow> dfa_target \<Rightarrow> dfa_work" where
  "set_dfa_transition currentDFA c (Target (Work dfaStateMap dfaStates unprocessed) target) =
     Work dfaStateMap
       (dfaStates[currentDFA := (dfaStates ! currentDFA)
          \<lparr>dfa_transitions := AList.update c target (dfa_transitions (dfaStates ! currentDFA))\<rparr>])
       unprocessed"

definition advance :: "State list \<Rightarrow> nat \<Rightarrow> char \<Rightarrow> nat list \<Rightarrow> dfa_work \<Rightarrow> dfa_work" where
  "advance A currentDFA c nextNFAStates w =
     (if nextNFAStates = [] then w
      else set_dfa_transition currentDFA c
             (register_closure A (epsilonClosure A nextNFAStates []) w))"

fun current_subset :: "dfa_work \<Rightarrow> nat \<Rightarrow> nat list" where
  "current_subset (Work dfaStateMap dfaStates unprocessed) currentDFA =
     nfaStates (dfaStates ! currentDFA)"

definition process_symbol :: "State list \<Rightarrow> nat \<Rightarrow> char \<Rightarrow> dfa_work \<Rightarrow> dfa_work" where
  "process_symbol A currentDFA c w =
     (if c = epsilon then w
      else advance A currentDFA c (nfa_move A (current_subset w currentDFA) c) w)"

fun process_alphabet :: "State list \<Rightarrow> nat \<Rightarrow> char list \<Rightarrow> dfa_work \<Rightarrow> dfa_work" where
  "process_alphabet A currentDFA [] w = w"
| "process_alphabet A currentDFA (c # alphabet) w =
     process_alphabet A currentDFA alphabet (process_symbol A currentDFA c w)"

definition key_space :: "State list \<Rightarrow> nat list set" where
  "key_space A = {xs. distinct xs \<and> set xs \<subseteq> targets A}"

lemma finite_key_space [simp]: "finite (key_space A)"
proof -
  have "key_space A \<subseteq> {xs. set xs \<subseteq> targets A \<and> length xs \<le> card (targets A)}"
  proof
    fix xs assume "xs \<in> key_space A"
    then have d: "distinct xs" and s: "set xs \<subseteq> targets A" by (auto simp: key_space_def)
    from d have "length xs = card (set xs)" by (simp add: distinct_card)
    also from s have "\<dots> \<le> card (targets A)" by (intro card_mono) auto
    finally show "xs \<in> {xs. set xs \<subseteq> targets A \<and> length xs \<le> card (targets A)}"
      using s by simp
  qed
  moreover have "finite {xs. set xs \<subseteq> targets A \<and> length xs \<le> card (targets A)}"
    by (rule finite_lists_length_le) simp
  ultimately show ?thesis by (rule finite_subset)
qed

lemma distinct_insert_state: "distinct S \<Longrightarrow> distinct (insert_state q S)"
  by (simp add: insert_state_def distinct_insort)

lemma sorted_insert_state: "sorted S \<Longrightarrow> sorted (insert_state q S)"
  by (simp add: insert_state_def sorted_insort)

lemma insert_states_set [simp]: "set (insert_states xs S) = set xs \<union> set S"
  by (induction xs arbitrary: S) auto

lemma insert_states_distinct: "distinct S \<Longrightarrow> distinct (insert_states xs S)"
  by (induction xs arbitrary: S) (auto simp: distinct_insert_state)

lemma insert_states_sorted: "sorted S \<Longrightarrow> sorted (insert_states xs S)"
  by (induction xs arbitrary: S) (auto simp: sorted_insert_state)

lemma push_eps_distinct:
  "push_eps ns stk cl = (stk', cl') \<Longrightarrow> distinct cl \<Longrightarrow> distinct cl'"
  by (induction ns arbitrary: stk cl) (auto split: if_splits simp: distinct_insert_state)

lemma push_eps_sorted:
  "push_eps ns stk cl = (stk', cl') \<Longrightarrow> sorted cl \<Longrightarrow> sorted cl'"
  by (induction ns arbitrary: stk cl) (auto split: if_splits simp: sorted_insert_state)

lemma eclose_loop_distinct: "distinct cl \<Longrightarrow> distinct (eclose_loop A stk cl)"
proof (induction A stk cl rule: eclose_loop.induct)
  case (1 A closure)
  then show ?case by simp
next
  case (2 A current stk closure)
  obtain stk' cl' where pe: "push_eps (succs A current epsilon) stk closure = (stk', cl')"
    by (cases "push_eps (succs A current epsilon) stk closure")
  from push_eps_distinct[OF pe "2.prems"] have "distinct cl'" .
  from "2.IH"[OF pe[symmetric] this] pe show ?case by simp
qed

lemma eclose_loop_sorted: "sorted cl \<Longrightarrow> sorted (eclose_loop A stk cl)"
proof (induction A stk cl rule: eclose_loop.induct)
  case (1 A closure)
  then show ?case by simp
next
  case (2 A current stk closure)
  obtain stk' cl' where pe: "push_eps (succs A current epsilon) stk closure = (stk', cl')"
    by (cases "push_eps (succs A current epsilon) stk closure")
  from push_eps_sorted[OF pe "2.prems"] have "sorted cl'" .
  from "2.IH"[OF pe[symmetric] this] pe show ?case by simp
qed

lemma eclose_loop_subset: "set (eclose_loop A stk cl) \<subseteq> set cl \<union> targets A"
proof (induction A stk cl rule: eclose_loop.induct)
  case (1 A closure)
  then show ?case by simp
next
  case (2 A current stk closure)
  obtain stk' cl' where pe: "push_eps (succs A current epsilon) stk closure = (stk', cl')"
    by (cases "push_eps (succs A current epsilon) stk closure")
  from 2[OF pe[symmetric]] have "set (eclose_loop A stk' cl') \<subseteq> set cl' \<union> targets A" .
  with push_eps_set[OF pe] succs_targets[of A current epsilon] pe show ?case by auto
qed

lemma epsilonClosure_distinct: "distinct (epsilonClosure A S [])"
  by (simp add: epsilonClosure_def eclose_loop_distinct insert_states_distinct)

lemma epsilonClosure_sorted: "sorted (epsilonClosure A S [])"
  by (simp add: epsilonClosure_def eclose_loop_sorted insert_states_sorted)

lemma move_from_set:
  "set (move_from A c S acc) = set acc \<union> (\<Union>q \<in> set S. set (succs A q c))"
  by (induction S arbitrary: acc) auto

lemma nfa_move_set: "set (nfa_move A S c) = (\<Union>q \<in> set S. set (succs A q c))"
  by (simp add: nfa_move_def move_from_set)

lemma nfa_move_targets: "set (nfa_move A S c) \<subseteq> targets A"
  using succs_targets[of A _ c] by (auto simp: nfa_move_set)

lemma epsilonClosure_key_space:
  "epsilonClosure A (nfa_move A S c) [] \<in> key_space A"
proof -
  have "set (epsilonClosure A (nfa_move A S c) []) \<subseteq> set (nfa_move A S c) \<union> targets A"
    using eclose_loop_subset[of A "rev (nfa_move A S c)" "insert_states (nfa_move A S c) []"]
    by (simp add: epsilonClosure_def)
  with nfa_move_targets[of A S c] show ?thesis
    by (auto simp: key_space_def epsilonClosure_distinct)
qed

definition work_measure :: "State list \<Rightarrow> dfa_work \<Rightarrow> nat" where
  "work_measure A w =
     (case w of Work m D stk \<Rightarrow> card (key_space A - fst ` set m) + length stk)"

lemma process_symbol_measure:
  "work_measure A (process_symbol A cur c w) \<le> work_measure A w"
proof (cases w)
  case (Work m D stk)
  show ?thesis
  proof (cases "c = epsilon \<or> nfa_move A (nfaStates (D ! cur)) c = []")
    case True
    then show ?thesis
      by (auto simp: process_symbol_def advance_def Work)
  next
    case False
    let ?k = "epsilonClosure A (nfa_move A (nfaStates (D ! cur)) c) []"
    show ?thesis
    proof (cases "map_of m ?k")
      case (Some t)
      with False show ?thesis
        by (simp add: process_symbol_def advance_def Work work_measure_def)
    next
      case None
      then have nk: "?k \<notin> fst ` set m" by (simp add: map_of_eq_None_iff)
      have "?k \<in> key_space A - fst ` set m" using nk epsilonClosure_key_space by simp
      then have "card (key_space A - insert ?k (fst ` set m)) < card (key_space A - fst ` set m)"
        by (intro psubset_card_mono) auto
      with None False show ?thesis
        by (simp add: process_symbol_def advance_def Work work_measure_def dom_update)
    qed
  qed
qed

lemma process_alphabet_measure:
  "work_measure A (process_alphabet A cur cs w) \<le> work_measure A w"
proof (induction cs arbitrary: w)
  case Nil
  show ?case by simp
next
  case (Cons c cs)
  have "work_measure A (process_alphabet A cur cs (process_symbol A cur c w))
          \<le> work_measure A (process_symbol A cur c w)" by (rule Cons.IH)
  also have "\<dots> \<le> work_measure A w" by (rule process_symbol_measure)
  finally show ?case by simp
qed

function dfa_loop :: "State list \<Rightarrow> char list \<Rightarrow> dfa_work \<Rightarrow> DFAState list" where
  "dfa_loop A alphabet (Work dfaStateMap dfaStates []) = dfaStates"
| "dfa_loop A alphabet (Work dfaStateMap dfaStates (currentDFA # unprocessed)) =
     dfa_loop A alphabet
       (process_alphabet A currentDFA alphabet (Work dfaStateMap dfaStates unprocessed))"
  by pat_completeness auto

termination
proof (relation "measure (\<lambda>(A, alphabet, w). work_measure A w)", goal_cases)
  case 1
  show ?case by simp
next
  case (2 A alphabet m D cur stk)
  have "work_measure A (process_alphabet A cur alphabet (Work m D stk))
          \<le> work_measure A (Work m D stk)" by (rule process_alphabet_measure)
  also have "\<dots> < work_measure A (Work m D (cur # stk))" by (simp add: work_measure_def)
  finally show ?case by simp
qed

text \<open>\<^verbatim>\<open>convertToDFA\<close> (Final.cpp 370-435, chessNot.cpp 304-350).\<close>

definition initial_work :: "State list \<Rightarrow> nat list \<Rightarrow> dfa_work" where
  "initial_work A startClosure = Work [(startClosure, 0)] [new_dfa_state A startClosure] [0]"

definition convertToDFA :: "State list \<Rightarrow> NFAPtr \<Rightarrow> DFAState list" where
  "convertToDFA A nfa =
     dfa_loop A (getAlphabet A nfa) (initial_work A (epsilonClosure A [frag_start nfa] []))"


section \<open>Running the automata\<close>

text \<open>
  A DFA is run as \<^verbatim>\<open>tryMatchDFA\<close> runs it (Final.cpp 325-346, chessNot.cpp 509-530): the
  run starts in the state that \<^verbatim>\<open>convertToDFA\<close> returns, the first of \<open>dfaStates\<close>, and a
  character is looked up in the transitions of the current state; the run stops when
  there is no entry.  A word is accepted when the run reads all of it and ends in a
  final state.
\<close>

definition dfa_step :: "DFAState list \<Rightarrow> nat \<Rightarrow> char \<Rightarrow> nat option" where
  "dfa_step D cur c = (if cur < length D then map_of (dfa_transitions (D ! cur)) c else None)"

definition dfa_final :: "DFAState list \<Rightarrow> nat \<Rightarrow> bool" where
  "dfa_final D cur = (cur < length D \<and> dfa_isFinal (D ! cur))"

fun dfa_run :: "DFAState list \<Rightarrow> nat \<Rightarrow> string \<Rightarrow> nat option" where
  "dfa_run D cur [] = Some cur"
| "dfa_run D cur (c # w) =
     (case dfa_step D cur c of None \<Rightarrow> None | Some nxt \<Rightarrow> dfa_run D nxt w)"

definition dfa_accepts :: "DFAState list \<Rightarrow> string \<Rightarrow> bool" where
  "dfa_accepts D w = (case dfa_run D 0 w of None \<Rightarrow> False | Some q \<Rightarrow> dfa_final D q)"

text \<open>
  The simulation of the NFA that the specification compares the DFA with; the source
  has no function for it.  The current set of states starts as the epsilon closure of
  the start state of the fragment; on a character it becomes the closure of the states
  that the character leads to; the word is accepted when the set reached holds a final
  state.  The character \<^verbatim>\<open>'\0'\<close> labels the epsilon moves and is no input symbol: on it
  the simulation has no move.
\<close>

definition spec_nfa_step :: "State list \<Rightarrow> nat list \<Rightarrow> char \<Rightarrow> nat list" where
  "spec_nfa_step A S c = (if c = epsilon then [] else epsilonClosure A (nfa_move A S c) [])"

fun spec_nfa_run :: "State list \<Rightarrow> nat list \<Rightarrow> string \<Rightarrow> nat list" where
  "spec_nfa_run A S [] = S"
| "spec_nfa_run A S (c # w) = spec_nfa_run A (spec_nfa_step A S c) w"

definition spec_nfa_accepts :: "State list \<Rightarrow> NFAPtr \<Rightarrow> string \<Rightarrow> bool" where
  "spec_nfa_accepts A nfa w =
     any_final A (spec_nfa_run A (epsilonClosure A [frag_start nfa] []) w)"

text \<open>The fragment of \<^verbatim>\<open>createCharNFA('a')\<close> of chessNot.cpp in an empty arena.\<close>

definition char_a_arena :: "State list" where
  "char_a_arena = arena_of (chess_createCharNFA (CHR ''a'') [])"

definition char_a_nfa :: NFAPtr where
  "char_a_nfa = ret_of (chess_createCharNFA (CHR ''a'') [])"

section \<open>The move-sequence validator of the chess notation\<close>

text \<open>\<^verbatim>\<open>enum class ChessTokenType\<close> and \<^verbatim>\<open>struct ChessToken\<close> (chessNot.cpp 14-39).\<close>

datatype ChessTokenType =
    MOVE_NUMBER | PAWN_MOVE | PIECE_MOVE | TWIN_PIECE_MOVE | PAWN_CAPTURE | PIECE_CAPTURE
  | TWIN_PIECE_CAPTURE | CASTLING | PROMOTION | PROMOTION_VIA_CAPTURE | CHECK | CHECKMATE
  | RESULT | CHESS_END_OF_INPUT | CHESS_INVALID

record ChessToken =
  ctype :: ChessTokenType
  cvalue :: string
  cposition :: int

datatype MoveState = EXPECT_NUMBER | EXPECT_WHITE_MOVE | EXPECT_BLACK_MOVE | GAME_OVER

text \<open>
  The lines that \<^verbatim>\<open>validateMoveSequence\<close> writes to \<^verbatim>\<open>cout\<close>, as data: the five
  sequence errors, the half-move warning and the closing line
  \<^verbatim>\<open>PGN sequence successfully parsed.\<close>
\<close>

datatype seq_message =
    TokensAfterTermination string
  | AbruptEnd int
  | HalfMoveWarning int
  | UnexpectedMoveNumber string
  | NumberMismatch int int
  | CheckmateNotFollowed string
  | UnexpectedMove string
  | SuccessfullyParsed

text \<open>\<^verbatim>\<open>isspace\<close> in the C locale.\<close>

definition isspace :: "char \<Rightarrow> bool" where
  "isspace c = (c = CHR '' '' \<or> c = CHR 0x09 \<or> c = CHR 0x0A \<or> c = CHR 0x0B
                \<or> c = CHR 0x0C \<or> c = CHR 0x0D)"

definition isdigit :: "char \<Rightarrow> bool" where
  "isdigit c = (48 \<le> (of_char c :: nat) \<and> (of_char c :: nat) \<le> 57)"

text \<open>
  \<^verbatim>\<open>std::stoi\<close>: white space is skipped, a sign is read, then the longest run of decimal
  digits; what follows is ignored.  It throws when there is no digit
  (\<^verbatim>\<open>invalid_argument\<close>) or when the value is not an \<^verbatim>\<open>int\<close> (\<^verbatim>\<open>out_of_range\<close>): \<open>None\<close>.
\<close>

fun digits_value :: "string \<Rightarrow> int \<Rightarrow> int" where
  "digits_value [] acc = acc"
| "digits_value (d # ds) acc = digits_value ds (10 * acc + (of_char d - 48))"

definition signed_digits :: "string \<Rightarrow> bool \<times> string" where
  "signed_digits s =
     (case s of
        [] \<Rightarrow> (False, [])
      | c # rest \<Rightarrow>
          if c = CHR ''-'' then (True, takeWhile isdigit rest)
          else if c = CHR ''+'' then (False, takeWhile isdigit rest)
          else (False, takeWhile isdigit s))"

definition int_of_digits :: "bool \<Rightarrow> string \<Rightarrow> int option" where
  "int_of_digits negative ds =
     (if ds = [] then None
      else if negative
      then (if digits_value ds 0 \<le> 2147483648 then Some (- digits_value ds 0) else None)
      else (if digits_value ds 0 \<le> 2147483647 then Some (digits_value ds 0) else None))"

definition stoi :: "string \<Rightarrow> int option" where
  "stoi s = int_of_digits (fst (signed_digits (dropWhile isspace s)))
                          (snd (signed_digits (dropWhile isspace s)))"

definition isMoveToken :: "ChessTokenType \<Rightarrow> bool" where
  "isMoveToken t =
     (t = PAWN_MOVE \<or> t = PIECE_MOVE \<or> t = TWIN_PIECE_MOVE \<or> t = PAWN_CAPTURE \<or>
      t = PIECE_CAPTURE \<or> t = TWIN_PIECE_CAPTURE \<or> t = CASTLING \<or> t = PROMOTION \<or>
      t = PROMOTION_VIA_CAPTURE \<or> t = CHECK \<or> t = CHECKMATE)"

text \<open>
  The statements after the loop of \<^verbatim>\<open>validateMoveSequence\<close>, reached when the loop ends or
  by a \<^verbatim>\<open>break\<close>.
\<close>

definition parsed :: "seq_message list \<Rightarrow> bool \<times> seq_message list" where
  "parsed out = (True, out @ [SuccessfullyParsed])"

text \<open>
  \<^verbatim>\<open>validateMoveSequence\<close> (chessNot.cpp 647-724).  The loop runs while
  \<^verbatim>\<open>i + 1 < tokens.size()\<close>; \<open>out\<close> collects what has been printed.  The fields
  \<^verbatim>\<open>currentState\<close> and \<^verbatim>\<open>expectedMoveNumber\<close> are arguments; the counter is an unbounded
  integer here (an \<^verbatim>\<open>int\<close> in the source, which would need over two thousand million
  move numbers to overflow).  \<^verbatim>\<open>token.value.substr(0, token.value.length() - 1)\<close> is
  \<open>butlast\<close>, also for the empty string.
\<close>

function validate_loop ::
  "ChessToken list \<Rightarrow> nat \<Rightarrow> MoveState \<Rightarrow> int \<Rightarrow> seq_message list \<Rightarrow> bool \<times> seq_message list"
where
  "validate_loop tokens i currentState expectedMoveNumber out =
     (if i + 1 < length tokens then
        if currentState = GAME_OVER then
          (if ctype (tokens ! i) = CHESS_END_OF_INPUT then parsed out
           else (False, out @ [TokensAfterTermination (cvalue (tokens ! i))]))
        else if ctype (tokens ! i) = CHESS_END_OF_INPUT then
          (if currentState = EXPECT_WHITE_MOVE
           then (False, out @ [AbruptEnd expectedMoveNumber])
           else if currentState = EXPECT_BLACK_MOVE
           then parsed (out @ [HalfMoveWarning expectedMoveNumber])
           else parsed out)
        else if ctype (tokens ! i) = RESULT then
          validate_loop tokens (i + 1) GAME_OVER expectedMoveNumber out
        else if ctype (tokens ! i) = MOVE_NUMBER then
          (if currentState \<noteq> EXPECT_NUMBER
           then (False, out @ [UnexpectedMoveNumber (cvalue (tokens ! i))])
           else case stoi (butlast (cvalue (tokens ! i))) of
                  None \<Rightarrow> (False, out)
                | Some moveNumber \<Rightarrow>
                    if moveNumber \<noteq> expectedMoveNumber
                    then (False, out @ [NumberMismatch expectedMoveNumber moveNumber])
                    else validate_loop tokens (i + 1) EXPECT_WHITE_MOVE
                           (expectedMoveNumber + 1) out)
        else if isMoveToken (ctype (tokens ! i)) then
          (if ctype (tokens ! i) = CHECKMATE \<and>
              \<not> (i + 1 < length tokens \<and> ctype (tokens ! (i + 1)) = RESULT)
           then (False, out @ [CheckmateNotFollowed (cvalue (tokens ! i))])
           else if currentState = EXPECT_WHITE_MOVE
           then validate_loop tokens (i + 1) EXPECT_BLACK_MOVE expectedMoveNumber out
           else if currentState = EXPECT_BLACK_MOVE
           then validate_loop tokens (i + 1) EXPECT_NUMBER expectedMoveNumber out
           else (False, out @ [UnexpectedMove (cvalue (tokens ! i))]))
        else validate_loop tokens (i + 1) currentState expectedMoveNumber out
      else parsed out)"
  by pat_completeness auto

termination validate_loop
  by (relation "measure (\<lambda>(tokens, i, st, n, out). length tokens - i)") auto

text \<open>\<^verbatim>\<open>resetPDA\<close> sets the counter to 1 and the state to \<^verbatim>\<open>EXPECT_NUMBER\<close>.\<close>

definition validateMoveSequence :: "ChessToken list \<Rightarrow> bool \<times> seq_message list" where
  "validateMoveSequence tokens = validate_loop tokens 0 EXPECT_NUMBER 1 []"

text \<open>
  The tokens of the inputs \<^verbatim>\<open>1.\<close>, \<^verbatim>\<open>1. e4\<close> and \<^verbatim>\<open>1. e4 e5 3. Nf3\<close>, each with the
  offset of its first character, closed by the end-of-input token that
  \<^verbatim>\<open>ChessLexer::tokenize\<close> appends.
\<close>

definition tokens_1 :: "ChessToken list" where
  "tokens_1 =
     [\<lparr>ctype = MOVE_NUMBER, cvalue = ''1.'', cposition = 0\<rparr>,
      \<lparr>ctype = CHESS_END_OF_INPUT, cvalue = [], cposition = 2\<rparr>]"

definition tokens_1_e4 :: "ChessToken list" where
  "tokens_1_e4 =
     [\<lparr>ctype = MOVE_NUMBER, cvalue = ''1.'', cposition = 0\<rparr>,
      \<lparr>ctype = PAWN_MOVE, cvalue = ''e4'', cposition = 3\<rparr>,
      \<lparr>ctype = CHESS_END_OF_INPUT, cvalue = [], cposition = 5\<rparr>]"

definition tokens_1_e4_e5_3_Nf3 :: "ChessToken list" where
  "tokens_1_e4_e5_3_Nf3 =
     [\<lparr>ctype = MOVE_NUMBER, cvalue = ''1.'', cposition = 0\<rparr>,
      \<lparr>ctype = PAWN_MOVE, cvalue = ''e4'', cposition = 3\<rparr>,
      \<lparr>ctype = PAWN_MOVE, cvalue = ''e5'', cposition = 6\<rparr>,
      \<lparr>ctype = MOVE_NUMBER, cvalue = ''3.'', cposition = 9\<rparr>,
      \<lparr>ctype = PIECE_MOVE, cvalue = ''Nf3'', cposition = 12\<rparr>,
      \<lparr>ctype = CHESS_END_OF_INPUT, cvalue = [], cposition = 15\<rparr>]"

text \<open>
  Token streams that begin with complete rounds: round \<open>r\<close> (counted from 0) is the
  move number \<open>r + 1\<close> at index \<open>3 * r\<close>, followed by a move of White and a move of
  Black, neither of them a checkmate.
\<close>

definition plain_move :: "ChessToken \<Rightarrow> bool" where
  "plain_move t = (isMoveToken (ctype t) \<and> ctype t \<noteq> CHECKMATE)"

definition round_at :: "ChessToken list \<Rightarrow> nat \<Rightarrow> bool" where
  "round_at tokens r =
     (ctype (tokens ! (3 * r)) = MOVE_NUMBER \<and>
      stoi (butlast (cvalue (tokens ! (3 * r)))) = Some (int r + 1) \<and>
      plain_move (tokens ! (3 * r + 1)) \<and>
      plain_move (tokens ! (3 * r + 2)))"

definition rounds :: "ChessToken list \<Rightarrow> nat \<Rightarrow> bool" where
  "rounds tokens k = list_all (round_at tokens) [0..<k]"

text \<open>
  The states that \<^verbatim>\<open>createCharClassNFA("[0-9]")\<close> leaves in an empty arena, in Final.cpp
  and in chessNot.cpp, and those that chessNot.cpp leaves for a class without
  brackets.
\<close>

definition final_digits_arena :: "State list" where
  "final_digits_arena =
     [\<lparr>transitions = map (\<lambda>c. (c, [1])) ''0123456789'', isFinal = False\<rparr>,
      \<lparr>transitions = [], isFinal = False\<rparr>]"

definition chess_digits_arena :: "State list" where
  "chess_digits_arena =
     [\<lparr>transitions = map (\<lambda>c. (c, [1])) ''0123456789'', isFinal = False\<rparr>,
      \<lparr>transitions = [], isFinal = True\<rparr>]"

definition empty_class_arena :: "State list" where
  "empty_class_arena =
     [\<lparr>transitions = [], isFinal = False\<rparr>, \<lparr>transitions = [], isFinal = True\<rparr>]"

definition first_two :: NFAPtr where
  "first_two = \<lparr>frag_start = 0, frag_end = 1\<rparr>"

section \<open>The expression PDA\<close>

text \<open>\<^verbatim>\<open>enum class TokenType\<close> and \<^verbatim>\<open>struct Token\<close> (Final.cpp 15-33).\<close>

datatype TokenType =
  IDENTIFIER | NUMBER | OPERATOR | LPAREN | RPAREN | ASSIGN | END_OF_INPUT | INVALID

record Token =
  tok_type :: TokenType
  tok_value :: string
  tok_position :: int

text \<open>
  \<^verbatim>\<open>enum class PDAState\<close> (Final.cpp 479-488).  A configuration of the loop of
  \<^verbatim>\<open>PDA::parse\<close> is the stack \<^verbatim>\<open>stackVar\<close>, its top first, the state and \<^verbatim>\<open>tokenIndex\<close>.
\<close>

datatype PDAState =
  START | EXPECT_ASSIGNMENT | AFTER_ASSIGNMENT | EXPECT_EXPR | IN_EXPR | AFTER_OPERATOR
  | ACCEPT | REJECT

datatype pda_config =
  Config (pda_stack: "string list") (pda_state: PDAState) (pda_index: nat)

text \<open>
  \<^verbatim>\<open>(tokenIndex < tokens.size()) ? tokens[tokenIndex] : Token(TokenType::END_OF_INPUT, "", -1)\<close>
\<close>

definition currentToken :: "Token list \<Rightarrow> nat \<Rightarrow> Token" where
  "currentToken tokens tokenIndex =
     (if tokenIndex < length tokens then tokens ! tokenIndex
      else \<lparr>tok_type = END_OF_INPUT, tok_value = [], tok_position = - 1\<rparr>)"

text \<open>
  The \<^verbatim>\<open>switch\<close> of the loop body (Final.cpp 517-635): \<open>stackTop\<close> is the top read before
  the switch, \<^verbatim>\<open>stackVar.pop()\<close> is \<open>tl\<close>.  The last two cases are the \<^verbatim>\<open>default\<close> branch.
\<close>

definition pda_step ::
  "Token list \<Rightarrow> string \<Rightarrow> string list \<Rightarrow> PDAState \<Rightarrow> nat \<Rightarrow> pda_config"
where
  "pda_step tokens stackTop stackVar currentState tokenIndex =
     (let t = tok_type (currentToken tokens tokenIndex) in
      case currentState of
        START \<Rightarrow>
          if t = IDENTIFIER then
            (if tokenIndex + 1 < length tokens \<and> tok_type (tokens ! (tokenIndex + 1)) = ASSIGN
             then Config stackVar EXPECT_ASSIGNMENT (tokenIndex + 1)
             else Config (''E'' # stackVar) EXPECT_EXPR tokenIndex)
          else if t = NUMBER \<or> t = LPAREN then Config (''E'' # stackVar) EXPECT_EXPR tokenIndex
          else Config stackVar REJECT tokenIndex
      | EXPECT_ASSIGNMENT \<Rightarrow>
          if t = ASSIGN then Config stackVar AFTER_ASSIGNMENT (tokenIndex + 1)
          else Config stackVar REJECT tokenIndex
      | AFTER_ASSIGNMENT \<Rightarrow> Config (''E'' # stackVar) EXPECT_EXPR tokenIndex
      | EXPECT_EXPR \<Rightarrow>
          if t = IDENTIFIER \<or> t = NUMBER then Config (tl stackVar) IN_EXPR (tokenIndex + 1)
          else if t = LPAREN
          then Config (''E'' # '')'' # tl stackVar) EXPECT_EXPR (tokenIndex + 1)
          else Config stackVar REJECT tokenIndex
      | IN_EXPR \<Rightarrow>
          if t = OPERATOR then Config (''E'' # stackVar) AFTER_OPERATOR (tokenIndex + 1)
          else if t = RPAREN \<and> stackTop = '')''
          then Config (tl stackVar) IN_EXPR (tokenIndex + 1)
          else if t = END_OF_INPUT \<and> stackTop = ''$'' then Config (tl stackVar) ACCEPT tokenIndex
          else Config stackVar REJECT tokenIndex
      | AFTER_OPERATOR \<Rightarrow>
          if t = IDENTIFIER \<or> t = NUMBER then Config (tl stackVar) IN_EXPR (tokenIndex + 1)
          else if t = LPAREN
          then Config (''E'' # '')'' # tl stackVar) EXPECT_EXPR (tokenIndex + 1)
          else Config stackVar REJECT tokenIndex
      | ACCEPT \<Rightarrow> Config stackVar REJECT tokenIndex
      | REJECT \<Rightarrow> Config stackVar REJECT tokenIndex)"

text \<open>
  The three ways out of \<^verbatim>\<open>parse\<close>: the loop ends in \<^verbatim>\<open>ACCEPT\<close> or \<^verbatim>\<open>REJECT\<close> and the line
  \<^verbatim>\<open>SYNTAX RESULT\<close> is printed; the check \<^verbatim>\<open>tokenIndex > tokens.size() + 5\<close> after the
  switch prints \<^verbatim>\<open>REJECT: Infinite loop detected\<close> and returns false; \<^verbatim>\<open>stackVar.top()\<close> is
  called on an empty stack, which C++ leaves undefined.
\<close>

datatype parse_exit = LoopExit PDAState | BoundExceeded | EmptyStackTop

text \<open>
  The loop ends: a step either consumes a token, or leaves \<^verbatim>\<open>START\<close> or
  \<^verbatim>\<open>AFTER_ASSIGNMENT\<close> for a state that consumes or rejects, or ends in \<^verbatim>\<open>ACCEPT\<close> or
  \<^verbatim>\<open>REJECT\<close>.
\<close>

fun state_rank :: "PDAState \<Rightarrow> nat" where
  "state_rank START = 2"
| "state_rank AFTER_ASSIGNMENT = 2"
| "state_rank ACCEPT = 0"
| "state_rank REJECT = 0"
| "state_rank s = 1"

definition pda_measure :: "Token list \<Rightarrow> pda_config \<Rightarrow> nat" where
  "pda_measure tokens c = (length tokens + 6 - pda_index c) * 3 + state_rank (pda_state c)"

lemma pda_step_measure:
  assumes "currentState \<noteq> ACCEPT" and "currentState \<noteq> REJECT"
    and "\<not> length tokens + 5 < pda_index (pda_step tokens stackTop stackVar currentState tokenIndex)"
  shows "pda_measure tokens (pda_step tokens stackTop stackVar currentState tokenIndex)
           < pda_measure tokens (Config stackVar currentState tokenIndex)"
  using assms by (cases currentState) (auto simp: pda_step_def pda_measure_def Let_def)

text \<open>The loop of \<^verbatim>\<open>PDA::parse\<close> (Final.cpp 511-642) from a configuration.\<close>

function parse_loop :: "Token list \<Rightarrow> pda_config \<Rightarrow> parse_exit" where
  "parse_loop tokens (Config stackVar currentState tokenIndex) =
     (if currentState = ACCEPT \<or> currentState = REJECT then LoopExit currentState
      else case stackVar of
             [] \<Rightarrow> EmptyStackTop
           | stackTop # below \<Rightarrow>
               if length tokens + 5
                    < pda_index (pda_step tokens stackTop stackVar currentState tokenIndex)
               then BoundExceeded
               else parse_loop tokens
                      (pda_step tokens stackTop stackVar currentState tokenIndex))"
  by pat_completeness auto

termination parse_loop
proof (relation "measure (\<lambda>(tokens, c). pda_measure tokens c)", goal_cases)
  case 1
  show ?case by simp
next
  case (2 tokens stackVar currentState tokenIndex stackTop below)
  then show ?case using pda_step_measure[of currentState tokens stackTop stackVar tokenIndex]
    by simp
qed

text \<open>
  The \<^verbatim>\<open>bool\<close> that \<^verbatim>\<open>parse\<close> returns: \<^verbatim>\<open>currentState == PDAState::ACCEPT\<close> after the loop,
  \<^verbatim>\<open>false\<close> at the bound check; \<open>None\<close> where the behaviour is undefined.  \<^verbatim>\<open>parse\<close> starts
  with the stack \<^verbatim>\<open>$\<close>, the state \<^verbatim>\<open>START\<close> and \<^verbatim>\<open>tokenIndex = 0\<close>.
\<close>

definition parse_result :: "parse_exit \<Rightarrow> bool option" where
  "parse_result e =
     (case e of LoopExit s \<Rightarrow> Some (s = ACCEPT) | BoundExceeded \<Rightarrow> Some False
      | EmptyStackTop \<Rightarrow> None)"

definition parse :: "Token list \<Rightarrow> bool option" where
  "parse tokens = parse_result (parse_loop tokens (Config [''$''] START 0))"

section \<open>The arithmetic lexer\<close>

text \<open>
  \<^verbatim>\<open>createIdentifierNFA\<close> and \<^verbatim>\<open>createNumberNFA\<close> (Final.cpp 286-304).  The statements run in the
  order of the source; \<^verbatim>\<open>createCharClassNFA\<close> may throw, and a statement that cannot throw
  is an \<open>Inr\<close>.  Of what a statement returns, \<open>arena_of\<close> is the arena it leaves and
  \<open>ret_of\<close> the fragment.
\<close>

definition createIdentifierNFA :: "State list \<Rightarrow> error + NFAPtr built" where
  "createIdentifierNFA A =
     (case createCharClassNFA ''[a-zA-Z_]'' A of Inl err \<Rightarrow> Inl err
      | Inr firstChar \<Rightarrow>
      case createCharClassNFA ''[a-zA-Z0-9_]'' (arena_of firstChar) of Inl err \<Rightarrow> Inl err
      | Inr subsequentChars \<Rightarrow>
      case Inr (kleeneStar (ret_of subsequentChars) (arena_of subsequentChars)) of
        Inl err \<Rightarrow> Inl err
      | Inr zeroOrMoreSubsequent \<Rightarrow>
        Inr (concatenate (ret_of firstChar) (ret_of zeroOrMoreSubsequent)
               (arena_of zeroOrMoreSubsequent)))"

definition createNumberNFA :: "State list \<Rightarrow> error + NFAPtr built" where
  "createNumberNFA A =
     (case createCharClassNFA ''[0-9]'' A of Inl err \<Rightarrow> Inl err
      | Inr integerPart \<Rightarrow>
      case Inr (oneOrMore (ret_of integerPart) (arena_of integerPart)) of Inl err \<Rightarrow> Inl err
      | Inr oneOrMoreDigits \<Rightarrow>
      case Inr (createCharNFA CHR ''.'' (arena_of oneOrMoreDigits)) of Inl err \<Rightarrow> Inl err
      | Inr dot \<Rightarrow>
      case createCharClassNFA ''[0-9]'' (arena_of dot) of Inl err \<Rightarrow> Inl err
      | Inr decimalDigits \<Rightarrow>
      case Inr (oneOrMore (ret_of decimalDigits) (arena_of decimalDigits)) of
        Inl err \<Rightarrow> Inl err
      | Inr oneOrMoreDecimal \<Rightarrow>
      case Inr (concatenate (ret_of dot) (ret_of oneOrMoreDecimal) (arena_of oneOrMoreDecimal)) of
        Inl err \<Rightarrow> Inl err
      | Inr decimalPart \<Rightarrow>
      case Inr (zeroOrOne (ret_of decimalPart) (arena_of decimalPart)) of Inl err \<Rightarrow> Inl err
      | Inr optionalDecimal \<Rightarrow>
        Inr (concatenate (ret_of oneOrMoreDigits) (ret_of optionalDecimal)
               (arena_of optionalDecimal)))"

text \<open>
  \<^verbatim>\<open>class Lexer\<close> (Final.cpp 71-100): the two DFAs, each given by its states with the
  start state first, and the table of the one-character tokens.  The constructor builds
  the identifier automaton first and the number automaton in the same arena.
\<close>

record Lexer =
  identifierDFA :: "DFAState list"
  numberDFA :: "DFAState list"
  singleCharTokens :: "(char \<times> TokenType) list"

definition initializeSingleCharTokens :: "(char \<times> TokenType) list" where
  "initializeSingleCharTokens =
     [(CHR ''+'', OPERATOR), (CHR ''-'', OPERATOR), (CHR ''*'', OPERATOR), (CHR ''/'', OPERATOR),
      (CHR ''='', ASSIGN), (CHR ''('', LPAREN), (CHR '')'', RPAREN)]"

definition new_Lexer :: "error + Lexer" where
  "new_Lexer =
     (case createIdentifierNFA [] of Inl err \<Rightarrow> Inl err
      | Inr identifierNFA \<Rightarrow>
      case createNumberNFA (arena_of identifierNFA) of Inl err \<Rightarrow> Inl err
      | Inr numberNFA \<Rightarrow>
        Inr \<lparr>identifierDFA = convertToDFA (arena_of identifierNFA) (ret_of identifierNFA),
             numberDFA = convertToDFA (arena_of numberNFA) (ret_of numberNFA),
             singleCharTokens = initializeSingleCharTokens\<rparr>)"

text \<open>
  \<^verbatim>\<open>tryMatchDFA\<close> (Final.cpp 325-346): \<open>match_loop\<close> is its loop over the characters from
  \<^verbatim>\<open>startPos\<close> on, \<open>consumed\<close> is \<^verbatim>\<open>input.substr(startPos, pos - startPos)\<close> and the last
  argument is \<^verbatim>\<open>matchedValue\<close>, \<open>None\<close> while \<^verbatim>\<open>lastAcceptPos\<close> is -1.
\<close>

fun match_loop ::
  "DFAState list \<Rightarrow> nat \<Rightarrow> string \<Rightarrow> string \<Rightarrow> string option \<Rightarrow> string option"
where
  "match_loop dfa currentState [] consumed matchedValue = matchedValue"
| "match_loop dfa currentState (c # rest) consumed matchedValue =
     (case dfa_step dfa currentState c of
        None \<Rightarrow> matchedValue
      | Some nxt \<Rightarrow>
          match_loop dfa nxt rest (consumed @ [c])
            (if dfa_final dfa nxt then Some (consumed @ [c]) else matchedValue))"

definition tryMatchDFA :: "DFAState list \<Rightarrow> string \<Rightarrow> nat \<Rightarrow> TokenType \<Rightarrow> Token" where
  "tryMatchDFA dfa input startPos type =
     (case match_loop dfa 0 (drop startPos input) [] None of
        Some matchedValue \<Rightarrow>
          \<lparr>tok_type = type, tok_value = matchedValue, tok_position = int startPos\<rparr>
      | None \<Rightarrow> \<lparr>tok_type = INVALID, tok_value = [], tok_position = int startPos\<rparr>)"

text \<open>
  \<^verbatim>\<open>getNextToken\<close> (Final.cpp 306-323): the table of one-character tokens first, then
  the identifier DFA, then the number DFA, else an \<^verbatim>\<open>INVALID\<close> token of one character.
\<close>

definition getNextToken :: "Lexer \<Rightarrow> string \<Rightarrow> nat \<Rightarrow> Token" where
  "getNextToken L input startPos =
     (case map_of (singleCharTokens L) (input ! startPos) of
        Some type \<Rightarrow>
          \<lparr>tok_type = type, tok_value = [input ! startPos], tok_position = int startPos\<rparr>
      | None \<Rightarrow>
          if tok_type (tryMatchDFA (identifierDFA L) input startPos IDENTIFIER) \<noteq> INVALID
          then tryMatchDFA (identifierDFA L) input startPos IDENTIFIER
          else if tok_type (tryMatchDFA (numberDFA L) input startPos NUMBER) \<noteq> INVALID
          then tryMatchDFA (numberDFA L) input startPos NUMBER
          else \<lparr>tok_type = INVALID, tok_value = [input ! startPos],
                 tok_position = int startPos\<rparr>)"

text \<open>
  \<^verbatim>\<open>tokenize\<close> (Final.cpp 112-130).  \<open>tokenize_step\<close> is the body of the loop on the
  position and the tokens pushed so far.  \<^verbatim>\<open>pos\<close> and \<^verbatim>\<open>length\<close> are \<^verbatim>\<open>int\<close> in the source and
  natural numbers here (an input of more than \<^verbatim>\<open>INT_MAX\<close> characters is not modelled);
  \<^verbatim>\<open>isspace\<close> is that of the C locale, also for a \<^verbatim>\<open>char\<close> of negative value, where the C
  library leaves it undefined.
\<close>

datatype scan = Scan (scan_pos: nat) (scan_tokens: "Token list")

definition tokenize_step :: "Lexer \<Rightarrow> string \<Rightarrow> scan \<Rightarrow> scan" where
  "tokenize_step L input s =
     (if isspace (input ! scan_pos s) then Scan (scan_pos s + 1) (scan_tokens s)
      else Scan (scan_pos s + length (tok_value (getNextToken L input (scan_pos s))))
                (scan_tokens s @ [getNextToken L input (scan_pos s)]))"

text \<open>
  The loop ends because a token returned by \<^verbatim>\<open>getNextToken\<close> is never empty: a match of
  a DFA is recorded only after a character has been consumed.
\<close>

lemma match_loop_longer:
  "match_loop dfa q rest consumed m = Some v \<Longrightarrow> m = Some v \<or> length consumed < length v"
proof (induction rest arbitrary: q consumed m)
  case Nil
  then show ?case by simp
next
  case (Cons c rest)
  show ?case
  proof (cases "dfa_step dfa q c")
    case None
    with Cons.prems show ?thesis by simp
  next
    case (Some nxt)
    with Cons.prems have "match_loop dfa nxt rest (consumed @ [c])
        (if dfa_final dfa nxt then Some (consumed @ [c]) else m) = Some v" by simp
    from Cons.IH[OF this] show ?thesis by (auto split: if_splits)
  qed
qed

lemma tryMatchDFA_value:
  "tok_type (tryMatchDFA dfa input startPos type) \<noteq> INVALID
   \<Longrightarrow> tok_value (tryMatchDFA dfa input startPos type) \<noteq> []"
  using match_loop_longer[of dfa 0 "drop startPos input" "[]" None]
  by (auto simp: tryMatchDFA_def split: option.splits)

lemma getNextToken_value: "tok_value (getNextToken L input startPos) \<noteq> []"
  by (auto simp: getNextToken_def tryMatchDFA_value split: option.splits)

lemma tokenize_step_advances: "scan_pos s < scan_pos (tokenize_step L input s)"
  using getNextToken_value[of L input "scan_pos s"] by (simp add: tokenize_step_def)

function tokenize_loop :: "Lexer \<Rightarrow> string \<Rightarrow> scan \<Rightarrow> Token list" where
  "tokenize_loop L input s =
     (if scan_pos s < length input then tokenize_loop L input (tokenize_step L input s)
      else scan_tokens s @
             [\<lparr>tok_type = END_OF_INPUT, tok_value = [], tok_position = int (scan_pos s)\<rparr>])"
  by pat_completeness auto

termination tokenize_loop
proof (relation "measure (\<lambda>(L, input, s). length input - scan_pos s)", goal_cases)
  case 1
  show ?case by simp
next
  case (2 L input s)
  with tokenize_step_advances[of s L input] show ?case by simp
qed

definition tokenize :: "Lexer \<Rightarrow> string \<Rightarrow> Token list" where
  "tokenize L input = tokenize_loop L input (Scan 0 [])"

text \<open>
  The states that the constructor builds, and the two DFAs: the identifier automaton
  takes the states 0 to 5 of the arena, the number automaton the states 6 to 17.
\<close>

definition digit_chars :: string where
  "digit_chars = ''0123456789''"

definition letter_chars :: string where
  "letter_chars = ''ABCDEFGHIJKLMNOPQRSTUVWXYZ_abcdefghijklmnopqrstuvwxyz''"

definition all_to :: "string \<Rightarrow> 'a \<Rightarrow> (char \<times> 'a) list" where
  "all_to cs t = map (\<lambda>c. (c, t)) cs"

definition identifier_states :: "State list" where
  "identifier_states =
     [\<lparr>transitions = all_to letter_chars [1], isFinal = False\<rparr>,
      \<lparr>transitions = [(epsilon, [4])], isFinal = False\<rparr>,
      \<lparr>transitions = all_to (digit_chars @ letter_chars) [3], isFinal = False\<rparr>,
      \<lparr>transitions = [(epsilon, [2, 5])], isFinal = False\<rparr>,
      \<lparr>transitions = [(epsilon, [2, 5])], isFinal = False\<rparr>,
      \<lparr>transitions = [], isFinal = True\<rparr>]"

definition number_states :: "State list" where
  "number_states =
     [\<lparr>transitions = all_to digit_chars [7], isFinal = False\<rparr>,
      \<lparr>transitions = [(epsilon, [6, 9, 8])], isFinal = False\<rparr>,
      \<lparr>transitions = [(epsilon, [6, 9])], isFinal = False\<rparr>,
      \<lparr>transitions = [(epsilon, [16])], isFinal = False\<rparr>,
      \<lparr>transitions = [(CHR ''.'', [11])], isFinal = False\<rparr>,
      \<lparr>transitions = [(epsilon, [12])], isFinal = False\<rparr>,
      \<lparr>transitions = all_to digit_chars [13], isFinal = False\<rparr>,
      \<lparr>transitions = [(epsilon, [12, 15, 14])], isFinal = False\<rparr>,
      \<lparr>transitions = [(epsilon, [12, 15])], isFinal = False\<rparr>,
      \<lparr>transitions = [(epsilon, [17])], isFinal = False\<rparr>,
      \<lparr>transitions = [(epsilon, [10, 17])], isFinal = False\<rparr>,
      \<lparr>transitions = [], isFinal = True\<rparr>]"

definition identifier_dfa :: "DFAState list" where
  "identifier_dfa =
     [\<lparr>nfaStates = [0], dfa_transitions = all_to letter_chars 1, dfa_isFinal = False\<rparr>,
      \<lparr>nfaStates = [1, 2, 4, 5], dfa_transitions = all_to (digit_chars @ letter_chars) 2,
        dfa_isFinal = True\<rparr>,
      \<lparr>nfaStates = [2, 3, 5], dfa_transitions = all_to (digit_chars @ letter_chars) 2,
        dfa_isFinal = True\<rparr>]"

definition number_dfa :: "DFAState list" where
  "number_dfa =
     [\<lparr>nfaStates = [6], dfa_transitions = all_to digit_chars 1, dfa_isFinal = False\<rparr>,
      \<lparr>nfaStates = [6, 7, 8, 9, 10, 16, 17],
        dfa_transitions = (CHR ''.'', 2) # all_to digit_chars 1, dfa_isFinal = True\<rparr>,
      \<lparr>nfaStates = [11, 12], dfa_transitions = all_to digit_chars 3, dfa_isFinal = False\<rparr>,
      \<lparr>nfaStates = [12, 13, 14, 15, 17], dfa_transitions = all_to digit_chars 3,
        dfa_isFinal = True\<rparr>]"

definition final_lexer :: Lexer where
  "final_lexer = \<lparr>identifierDFA = identifier_dfa, numberDFA = number_dfa,
                   singleCharTokens = initializeSingleCharTokens\<rparr>"

section \<open>The chess lexer\<close>

text \<open>
  \<^verbatim>\<open>class ChessLexer\<close> (chessNot.cpp 403-530), for any thirteen DFAs.
\<close>

record ChessLexer =
  moveNumberDFA :: "DFAState list"
  pawnMoveDFA :: "DFAState list"
  pieceMoveDFA :: "DFAState list"
  twinPieceMoveDFA :: "DFAState list"
  pawnCaptureDFA :: "DFAState list"
  pieceCaptureDFA :: "DFAState list"
  twinPieceCaptureDFA :: "DFAState list"
  castlingDFA :: "DFAState list"
  promotionDFA :: "DFAState list"
  promotionViaCaptureDFA :: "DFAState list"
  checkDFA :: "DFAState list"
  checkmateDFA :: "DFAState list"
  resultDFA :: "DFAState list"

text \<open>
  \<^verbatim>\<open>tryMatchDFA\<close> (chessNot.cpp 509-530) runs the same loop as that of Final.cpp; it
  returns whether there was a match, \<open>Some\<close> of \<^verbatim>\<open>matchedValue\<close> here.  \<^verbatim>\<open>testDFAPattern\<close>
  (chessNot.cpp 501-507) pushes the match to \<^verbatim>\<open>candidates\<close>.
\<close>

definition chess_tryMatchDFA :: "DFAState list \<Rightarrow> string \<Rightarrow> nat \<Rightarrow> string option" where
  "chess_tryMatchDFA dfa input startPos = match_loop dfa 0 (drop startPos input) [] None"

definition testDFAPattern ::
  "DFAState list \<Rightarrow> string \<Rightarrow> nat \<Rightarrow> ChessTokenType \<Rightarrow> (ChessTokenType \<times> string) list
   \<Rightarrow> (ChessTokenType \<times> string) list"
where
  "testDFAPattern dfa input startPos type candidates =
     (case chess_tryMatchDFA dfa input startPos of
        Some matchedValue \<Rightarrow> candidates @ [(type, matchedValue)]
      | None \<Rightarrow> candidates)"

text \<open>
  The thirteen calls of \<^verbatim>\<open>testDFAPattern\<close> in \<^verbatim>\<open>tryMatchLongest\<close> (chessNot.cpp 483-495), in
  the order of the source, as the list of their token types and DFAs.
\<close>

definition chess_patterns :: "ChessLexer \<Rightarrow> (ChessTokenType \<times> DFAState list) list" where
  "chess_patterns L =
     [(MOVE_NUMBER, moveNumberDFA L), (RESULT, resultDFA L), (CASTLING, castlingDFA L),
      (PAWN_MOVE, pawnMoveDFA L), (PIECE_MOVE, pieceMoveDFA L),
      (PAWN_CAPTURE, pawnCaptureDFA L), (PIECE_CAPTURE, pieceCaptureDFA L),
      (PROMOTION, promotionDFA L), (TWIN_PIECE_MOVE, twinPieceMoveDFA L),
      (TWIN_PIECE_CAPTURE, twinPieceCaptureDFA L),
      (PROMOTION_VIA_CAPTURE, promotionViaCaptureDFA L), (CHECKMATE, checkmateDFA L),
      (CHECK, checkDFA L)]"

fun test_patterns ::
  "(ChessTokenType \<times> DFAState list) list \<Rightarrow> string \<Rightarrow> nat
   \<Rightarrow> (ChessTokenType \<times> string) list \<Rightarrow> (ChessTokenType \<times> string) list"
where
  "test_patterns [] input startPos candidates = candidates"
| "test_patterns (p # ps) input startPos candidates =
     test_patterns ps input startPos (testDFAPattern (snd p) input startPos (fst p) candidates)"

definition chess_candidates :: "ChessLexer \<Rightarrow> string \<Rightarrow> nat \<Rightarrow> (ChessTokenType \<times> string) list" where
  "chess_candidates L input startPos = test_patterns (chess_patterns L) input startPos []"

text \<open>
  The rest of \<^verbatim>\<open>tryMatchLongest\<close> (chessNot.cpp 497-506): \<open>pick_longest\<close> is the loop
  \<^verbatim>\<open>for (const auto& candidate : candidates)\<close>, which starts from \<^verbatim>\<open>candidates[0]\<close> and takes
  a candidate only when it is strictly longer.
\<close>

fun pick_longest :: "'t \<times> string \<Rightarrow> ('t \<times> string) list \<Rightarrow> 't \<times> string" where
  "pick_longest longest [] = longest"
| "pick_longest longest (candidate # candidates) =
     pick_longest (if length (snd longest) < length (snd candidate) then candidate else longest)
       candidates"

definition tryMatchLongest :: "ChessLexer \<Rightarrow> string \<Rightarrow> nat \<Rightarrow> ChessToken" where
  "tryMatchLongest L input startPos =
     (case chess_candidates L input startPos of
        [] \<Rightarrow> \<lparr>ctype = CHESS_INVALID, cvalue = [], cposition = int startPos\<rparr>
      | first # others \<Rightarrow>
          \<lparr>ctype = fst (pick_longest first (first # others)),
           cvalue = snd (pick_longest first (first # others)),
           cposition = int startPos\<rparr>)"

text \<open>
  \<^verbatim>\<open>getNextToken\<close> (chessNot.cpp 472-478) and the body of the loop of \<^verbatim>\<open>tokenize\<close>
  (chessNot.cpp 442-470): an \<^verbatim>\<open>INVALID\<close> token is reported, \<^verbatim>\<open>hadLexicalError\<close> is set, the
  position moves by one and no token is pushed.
\<close>

definition chess_getNextToken :: "ChessLexer \<Rightarrow> string \<Rightarrow> nat \<Rightarrow> ChessToken" where
  "chess_getNextToken L input startPos =
     (if ctype (tryMatchLongest L input startPos) \<noteq> CHESS_INVALID
      then tryMatchLongest L input startPos
      else \<lparr>ctype = CHESS_INVALID, cvalue = [input ! startPos], cposition = int startPos\<rparr>)"

datatype chess_scan =
  ChessScan (cscan_pos: nat) (cscan_tokens: "ChessToken list") (hadLexicalError: bool)

definition chess_tokenize_step :: "ChessLexer \<Rightarrow> string \<Rightarrow> chess_scan \<Rightarrow> chess_scan" where
  "chess_tokenize_step L input s =
     (if isspace (input ! cscan_pos s)
      then ChessScan (cscan_pos s + 1) (cscan_tokens s) (hadLexicalError s)
      else if ctype (chess_getNextToken L input (cscan_pos s)) = CHESS_INVALID
      then ChessScan (cscan_pos s + 1) (cscan_tokens s) True
      else ChessScan (cscan_pos s + length (cvalue (chess_getNextToken L input (cscan_pos s))))
             (cscan_tokens s @ [chess_getNextToken L input (cscan_pos s)])
             (hadLexicalError s))"

text \<open>
  A candidate \<open>c\<close> of the list \<open>cands\<close> with every candidate before it strictly shorter
  and no candidate after it longer: the longest one, the first of them in the list
  where several have that length.
\<close>

definition shorter_before :: "('t \<times> string) list \<Rightarrow> 't \<times> string \<Rightarrow> bool" where
  "shorter_before cands c =
     (\<exists>pre post. cands = pre @ c # post \<and>
        (\<forall>x \<in> set pre. length (snd x) < length (snd c)) \<and>
        (\<forall>x \<in> set post. length (snd x) \<le> length (snd c)))"

lemma shorter_before_single: "shorter_before [c] c"
  unfolding shorter_before_def by (intro exI[of _ "[]"]) simp

lemma shorter_before_snoc:
  assumes "shorter_before seen l"
  shows "shorter_before (seen @ [c]) (if length (snd l) < length (snd c) then c else l)"
proof -
  from assms obtain pre post where s: "seen = pre @ l # post"
    and p: "\<forall>x \<in> set pre. length (snd x) < length (snd l)"
    and q: "\<forall>x \<in> set post. length (snd x) \<le> length (snd l)"
    unfolding shorter_before_def by blast
  show ?thesis
  proof (cases "length (snd l) < length (snd c)")
    case True
    have "\<forall>x \<in> set seen. length (snd x) < length (snd c)"
    proof
      fix x assume "x \<in> set seen"
      with s have "x \<in> set pre \<or> x = l \<or> x \<in> set post" by auto
      with p q True show "length (snd x) < length (snd c)" by fastforce
    qed
    then have "shorter_before (seen @ [c]) c"
      unfolding shorter_before_def by (intro exI[of _ seen] exI[of _ "[]"]) simp
    with True show ?thesis by simp
  next
    case False
    have "seen @ [c] = pre @ l # (post @ [c])" using s by simp
    moreover have "\<forall>x \<in> set (post @ [c]). length (snd x) \<le> length (snd l)"
      using q False by auto
    ultimately have "shorter_before (seen @ [c]) l"
      unfolding shorter_before_def using p by blast
    with False show ?thesis by simp
  qed
qed

lemma pick_longest_shorter_before:
  "shorter_before seen l \<Longrightarrow> shorter_before (seen @ cs) (pick_longest l cs)"
proof (induction cs arbitrary: seen l)
  case Nil
  then show ?case by simp
next
  case (Cons c cs)
  from Cons.IH[OF shorter_before_snoc[OF Cons.prems, of c]] show ?case by simp
qed

lemma pick_longest_first:
  "shorter_before (first # others) (pick_longest first (first # others))"
proof -
  have "pick_longest first (first # others) = pick_longest first others" by simp
  moreover from pick_longest_shorter_before[OF shorter_before_single, of first others]
  have "shorter_before (first # others) (pick_longest first others)" by simp
  ultimately show ?thesis by simp
qed

lemma shorter_before_mem: "shorter_before cands c \<Longrightarrow> c \<in> set cands"
  unfolding shorter_before_def by auto

definition good_candidates :: "(ChessTokenType \<times> string) list \<Rightarrow> bool" where
  "good_candidates cs = (\<forall>c \<in> set cs. fst c \<noteq> CHESS_INVALID \<and> snd c \<noteq> [])"

lemma chess_tryMatchDFA_value: "chess_tryMatchDFA dfa input startPos = Some v \<Longrightarrow> v \<noteq> []"
  using match_loop_longer[of dfa 0 "drop startPos input" "[]" None v]
  by (auto simp: chess_tryMatchDFA_def)

lemma testDFAPattern_good:
  "good_candidates cs \<Longrightarrow> type \<noteq> CHESS_INVALID
   \<Longrightarrow> good_candidates (testDFAPattern dfa input startPos type cs)"
  by (auto simp: testDFAPattern_def good_candidates_def chess_tryMatchDFA_value
      split: option.splits)

lemma test_patterns_good:
  "good_candidates cs \<Longrightarrow> \<forall>p \<in> set ps. fst p \<noteq> CHESS_INVALID
   \<Longrightarrow> good_candidates (test_patterns ps input startPos cs)"
proof (induction ps arbitrary: cs)
  case Nil
  then show ?case by simp
next
  case (Cons p ps)
  from Cons.prems have "good_candidates (testDFAPattern (snd p) input startPos (fst p) cs)"
    by (intro testDFAPattern_good) simp_all
  from Cons.IH[OF this] Cons.prems(2) show ?case by simp
qed

lemma chess_candidates_good: "good_candidates (chess_candidates L input startPos)"
  unfolding chess_candidates_def
  by (rule test_patterns_good) (simp_all add: good_candidates_def chess_patterns_def)

lemma chess_emits_longest:
  assumes "chess_candidates L input startPos \<noteq> []"
  shows "\<exists>c. shorter_before (chess_candidates L input startPos) c \<and>
           chess_getNextToken L input startPos
             = \<lparr>ctype = fst c, cvalue = snd c, cposition = int startPos\<rparr>"
proof -
  from assms obtain first others where f: "chess_candidates L input startPos = first # others"
    by (cases "chess_candidates L input startPos") auto
  let ?c = "pick_longest first (first # others)"
  have sb: "shorter_before (chess_candidates L input startPos) ?c"
    unfolding f by (rule pick_longest_first)
  from shorter_before_mem[OF sb] chess_candidates_good[of L input startPos]
  have "fst ?c \<noteq> CHESS_INVALID" by (simp add: good_candidates_def)
  then have "chess_getNextToken L input startPos
      = \<lparr>ctype = fst ?c, cvalue = snd ?c, cposition = int startPos\<rparr>"
    by (simp add: chess_getNextToken_def tryMatchLongest_def f)
  with sb show ?thesis by blast
qed

lemma chess_getNextToken_value:
  "ctype (chess_getNextToken L input startPos) \<noteq> CHESS_INVALID
   \<Longrightarrow> cvalue (chess_getNextToken L input startPos) \<noteq> []"
proof -
  assume a: "ctype (chess_getNextToken L input startPos) \<noteq> CHESS_INVALID"
  then have ne: "chess_candidates L input startPos \<noteq> []"
    by (auto simp: chess_getNextToken_def tryMatchLongest_def split: list.splits if_splits)
  from chess_emits_longest[OF ne] obtain c
    where sb: "shorter_before (chess_candidates L input startPos) c"
      and t: "chess_getNextToken L input startPos
                = \<lparr>ctype = fst c, cvalue = snd c, cposition = int startPos\<rparr>" by blast
  from shorter_before_mem[OF sb] chess_candidates_good[of L input startPos]
  have "snd c \<noteq> []" by (simp add: good_candidates_def)
  with t show ?thesis by simp
qed

lemma chess_getNextToken_position:
  "cposition (chess_getNextToken L input startPos) = int startPos"
  by (simp add: chess_getNextToken_def tryMatchLongest_def split: list.splits)

lemma chess_tokenize_step_advances: "cscan_pos s < cscan_pos (chess_tokenize_step L input s)"
  using chess_getNextToken_value[of L input "cscan_pos s"]
  by (simp add: chess_tokenize_step_def)

text \<open>
  The loop of \<^verbatim>\<open>tokenize\<close> and what it returns: the tokens, closed by the end-of-input
  token, and \<^verbatim>\<open>hadLexicalError\<close>.
\<close>

function chess_tokenize_loop ::
  "ChessLexer \<Rightarrow> string \<Rightarrow> chess_scan \<Rightarrow> ChessToken list \<times> bool"
where
  "chess_tokenize_loop L input s =
     (if cscan_pos s < length input
      then chess_tokenize_loop L input (chess_tokenize_step L input s)
      else (cscan_tokens s @
              [\<lparr>ctype = CHESS_END_OF_INPUT, cvalue = [], cposition = int (cscan_pos s)\<rparr>],
            hadLexicalError s))"
  by pat_completeness auto

termination chess_tokenize_loop
proof (relation "measure (\<lambda>(L, input, s). length input - cscan_pos s)", goal_cases)
  case 1
  show ?case by simp
next
  case (2 L input s)
  with chess_tokenize_step_advances[of s L input] show ?case by simp
qed

definition chess_tokenize :: "ChessLexer \<Rightarrow> string \<Rightarrow> ChessToken list \<times> bool" where
  "chess_tokenize L input = chess_tokenize_loop L input (ChessScan 0 [] False)"

text \<open>
  A chess lexer for the examples: each of its DFAs accepts the one word \<^verbatim>\<open>a\<close>.
\<close>

definition letter_a_dfa :: "DFAState list" where
  "letter_a_dfa =
     [\<lparr>nfaStates = [0], dfa_transitions = [(CHR ''a'', 1)], dfa_isFinal = False\<rparr>,
      \<lparr>nfaStates = [1], dfa_transitions = [], dfa_isFinal = True\<rparr>]"

definition one_letter_lexer :: ChessLexer where
  "one_letter_lexer =
     \<lparr>moveNumberDFA = letter_a_dfa, pawnMoveDFA = letter_a_dfa, pieceMoveDFA = letter_a_dfa,
      twinPieceMoveDFA = letter_a_dfa, pawnCaptureDFA = letter_a_dfa,
      pieceCaptureDFA = letter_a_dfa, twinPieceCaptureDFA = letter_a_dfa,
      castlingDFA = letter_a_dfa, promotionDFA = letter_a_dfa,
      promotionViaCaptureDFA = letter_a_dfa, checkDFA = letter_a_dfa,
      checkmateDFA = letter_a_dfa, resultDFA = letter_a_dfa\<rparr>"

text \<open>
  What a DFA accepts from a state, and the longest prefix of a word that it accepts:
  \<open>longest_at D q w n\<close> says that the first \<open>n\<close> characters of \<open>w\<close>, at least one, are
  accepted from \<open>q\<close> and no longer prefix is.
\<close>

definition accepts_from :: "DFAState list \<Rightarrow> nat \<Rightarrow> string \<Rightarrow> bool" where
  "accepts_from D q w = (case dfa_run D q w of None \<Rightarrow> False | Some q' \<Rightarrow> dfa_final D q')"

definition no_match :: "DFAState list \<Rightarrow> nat \<Rightarrow> string \<Rightarrow> bool" where
  "no_match D q rest = (\<forall>n. 0 < n \<longrightarrow> n \<le> length rest \<longrightarrow> \<not> accepts_from D q (take n rest))"

definition longest_at :: "DFAState list \<Rightarrow> nat \<Rightarrow> string \<Rightarrow> nat \<Rightarrow> bool" where
  "longest_at D q rest n =
     (0 < n \<and> n \<le> length rest \<and> accepts_from D q (take n rest) \<and>
      (\<forall>k. 0 < k \<longrightarrow> k \<le> length rest \<longrightarrow> accepts_from D q (take k rest) \<longrightarrow> k \<le> n))"


section \<open>Correctness of the subset construction\<close>

subsection \<open>Sets of states closed under the transitions\<close>

definition sym_closed :: "State list \<Rightarrow> char list \<Rightarrow> nat set \<Rightarrow> bool" where
  "sym_closed A alphabet R =
     (\<forall>q \<in> R. \<forall>c. set (succs A q c) \<subseteq> R \<and>
        (c \<noteq> epsilon \<longrightarrow> succs A q c \<noteq> [] \<longrightarrow> c \<in> set alphabet))"

lemma succs_trans_of:
  "succs A q c \<noteq> [] \<Longrightarrow> (c, succs A q c) \<in> set (trans_of A q)"
  by (auto simp: succs_def trans_of_def split: if_splits option.splits dest: map_of_SomeD)

definition node_done :: "State list \<Rightarrow> char list \<times> nat list \<Rightarrow> nat \<Rightarrow> bool" where
  "node_done A acc x =
     (\<forall>p \<in> set (trans_of A x).
        (fst p \<noteq> epsilon \<longrightarrow> fst p \<in> set (fst acc)) \<and> set (snd p) \<subseteq> set (snd acc))"

definition acc_le :: "char list \<times> nat list \<Rightarrow> char list \<times> nat list \<Rightarrow> bool" where
  "acc_le acc acc' = (set (fst acc) \<subseteq> set (fst acc') \<and> set (snd acc) \<subseteq> set (snd acc'))"

definition dfs_post :: "State list \<Rightarrow> char list \<times> nat list \<Rightarrow> char list \<times> nat list \<Rightarrow> bool" where
  "dfs_post A acc acc' =
     (acc_le acc acc' \<and> (\<forall>x \<in> set (snd acc') - set (snd acc). node_done A acc' x))"

lemma acc_le_refl: "acc_le a a"
  by (simp add: acc_le_def)

lemma acc_le_trans: "acc_le a b \<Longrightarrow> acc_le b c \<Longrightarrow> acc_le a c"
  by (auto simp: acc_le_def)

lemma node_done_mono: "node_done A b x \<Longrightarrow> acc_le b c \<Longrightarrow> node_done A c x"
  unfolding node_done_def acc_le_def by blast

lemma dfs_post_refl: "dfs_post A acc acc"
  by (simp add: dfs_post_def acc_le_refl)

lemma dfs_post_le: "dfs_post A a b \<Longrightarrow> acc_le a b"
  by (simp add: dfs_post_def)

lemma dfs_post_trans:
  assumes ab: "dfs_post A a b" and bc: "dfs_post A b c"
  shows "dfs_post A a c"
  unfolding dfs_post_def
proof (intro conjI ballI)
  show "acc_le a c" using ab bc by (auto simp: dfs_post_def intro: acc_le_trans)
next
  fix x assume x: "x \<in> set (snd c) - set (snd a)"
  show "node_done A c x"
  proof (cases "x \<in> set (snd b)")
    case True
    with x ab have "node_done A b x" by (simp add: dfs_post_def)
    then show ?thesis using bc by (auto simp: dfs_post_def intro: node_done_mono)
  next
    case False
    with x bc show ?thesis by (simp add: dfs_post_def)
  qed
qed

lemma set_insert_char [simp]: "set (insert_char c cs) = insert c (set cs)"
  by (auto simp: insert_char_def set_insort_key)

lemma collect_post:
  "dfs_post A acc (collectAlphabet A q acc) \<and> q \<in> set (snd (collectAlphabet A q acc))"
  "dfs_post A acc (collectTransitions A trs acc) \<and>
     (\<forall>p \<in> set trs. (fst p \<noteq> epsilon \<longrightarrow> fst p \<in> set (fst (collectTransitions A trs acc))) \<and>
        set (snd p) \<subseteq> set (snd (collectTransitions A trs acc)))"
  "dfs_post A acc (collectTargets A ts acc) \<and> set ts \<subseteq> set (snd (collectTargets A ts acc))"
proof (induction A q acc and A trs acc and A ts acc
       rule: collectAlphabet_collectTransitions_collectTargets.induct)
  case (1 A state alphabet visited)
  show ?case
  proof (cases "state \<in> set visited")
    case True
    then show ?thesis by (simp add: dfs_post_refl)
  next
    case False
    let ?a0 = "(alphabet, insert_state state visited)"
    let ?r = "collectTransitions A (trans_of A state) ?a0"
    from 1[OF False] have p: "dfs_post A ?a0 ?r"
      and e: "node_done A ?r state" by (auto simp: node_done_def)
    have le0: "acc_le (alphabet, visited) ?a0" by (auto simp: acc_le_def)
    have le: "acc_le (alphabet, visited) ?r"
      using acc_le_trans[OF le0 dfs_post_le[OF p]] .
    have st: "state \<in> set (snd ?r)" using dfs_post_le[OF p] by (auto simp: acc_le_def)
    have "dfs_post A (alphabet, visited) ?r"
      unfolding dfs_post_def
    proof (intro conjI ballI)
      show "acc_le (alphabet, visited) ?r" by (rule le)
    next
      fix x assume x: "x \<in> set (snd ?r) - set (snd (alphabet, visited))"
      show "node_done A ?r x"
      proof (cases "x = state")
        case True with e show ?thesis by simp
      next
        case False
        with x have "x \<in> set (snd ?r) - set (snd ?a0)" by simp
        with p show ?thesis by (simp add: dfs_post_def)
      qed
    qed
    with st False show ?thesis by simp
  qed
next
  case (2 A acc)
  show ?case by (simp add: dfs_post_refl)
next
  case (3 A symbol nexts rest alphabet visited)
  let ?a0 = "(if symbol \<noteq> epsilon then insert_char symbol alphabet else alphabet, visited)"
  let ?a1 = "collectTargets A nexts ?a0"
  let ?a2 = "collectTransitions A rest ?a1"
  have p0: "dfs_post A (alphabet, visited) ?a0" by (auto simp: dfs_post_def acc_le_def)
  from 3(1) have p1: "dfs_post A ?a0 ?a1" and t1: "set nexts \<subseteq> set (snd ?a1)" by auto
  from 3(2) have p2: "dfs_post A ?a1 ?a2"
    and e2: "\<forall>p \<in> set rest. (fst p \<noteq> epsilon \<longrightarrow> fst p \<in> set (fst ?a2)) \<and>
                set (snd p) \<subseteq> set (snd ?a2)" by auto
  have p: "dfs_post A (alphabet, visited) ?a2"
    using dfs_post_trans[OF dfs_post_trans[OF p0 p1] p2] .
  have le02: "acc_le ?a0 ?a2" using acc_le_trans[OF dfs_post_le[OF p1] dfs_post_le[OF p2]] .
  have s: "symbol \<noteq> epsilon \<longrightarrow> symbol \<in> set (fst ?a2)"
    using le02 by (auto simp: acc_le_def)
  have n: "set nexts \<subseteq> set (snd ?a2)" using t1 dfs_post_le[OF p2] by (auto simp: acc_le_def)
  from p s n e2 show ?case by simp
next
  case (4 A acc)
  show ?case by (simp add: dfs_post_refl)
next
  case (5 A nextState rest acc)
  let ?a1 = "collectAlphabet A nextState acc"
  let ?a2 = "collectTargets A rest ?a1"
  from 5(1) have p1: "dfs_post A acc ?a1" and t1: "nextState \<in> set (snd ?a1)" by auto
  from 5(2) have p2: "dfs_post A ?a1 ?a2" and t2: "set rest \<subseteq> set (snd ?a2)" by auto
  have "nextState \<in> set (snd ?a2)" using t1 dfs_post_le[OF p2] by (auto simp: acc_le_def)
  with dfs_post_trans[OF p1 p2] t2 show ?case by simp
qed

lemma getAlphabet_closed:
  "\<exists>R. frag_start nfa \<in> R \<and> sym_closed A (getAlphabet A nfa) R"
proof -
  let ?r = "collectAlphabet A (frag_start nfa) ([], [])"
  from collect_post(1)[of A "([], [])" "frag_start nfa"]
  have p: "dfs_post A ([], []) ?r" and s: "frag_start nfa \<in> set (snd ?r)" by auto
  have d: "node_done A ?r q" if "q \<in> set (snd ?r)" for q
    using p that by (simp add: dfs_post_def)
  have "sym_closed A (getAlphabet A nfa) (set (snd ?r))"
    unfolding sym_closed_def getAlphabet_def
  proof (intro ballI allI conjI impI)
    fix q c assume q: "q \<in> set (snd ?r)"
    show "set (succs A q c) \<subseteq> set (snd ?r)"
    proof (cases "succs A q c = []")
      case True then show ?thesis by simp
    next
      case False
      from succs_trans_of[OF False] d[OF q] show ?thesis
        unfolding node_done_def by fastforce
    qed
    assume "c \<noteq> epsilon" "succs A q c \<noteq> []"
    with succs_trans_of[of A q c] d[OF q] show "c \<in> set (fst ?r)"
      unfolding node_done_def by fastforce
  qed
  with s show ?thesis by blast
qed


subsection \<open>Closures and moves stay inside a closed set\<close>

lemma push_eps_stack:
  "push_eps ns stk cl = (stk', cl') \<Longrightarrow> set stk' \<subseteq> set stk \<union> set ns"
proof (induction ns arbitrary: stk cl)
  case Nil
  then show ?case by simp
next
  case (Cons n ns)
  show ?case
  proof (cases "n \<in> set cl")
    case True
    with Cons.prems have "push_eps ns stk cl = (stk', cl')" by simp
    from Cons.IH[OF this] show ?thesis by auto
  next
    case False
    with Cons.prems have "push_eps ns (n # stk) (insert_state n cl) = (stk', cl')" by simp
    from Cons.IH[OF this] show ?thesis by auto
  qed
qed

lemma eclose_loop_closed:
  "(\<forall>q \<in> R. set (succs A q epsilon) \<subseteq> R) \<Longrightarrow> set stk \<subseteq> R \<Longrightarrow> set cl \<subseteq> R
     \<Longrightarrow> set (eclose_loop A stk cl) \<subseteq> R"
proof (induction A stk cl rule: eclose_loop.induct)
  case (1 A closure)
  then show ?case by simp
next
  case (2 A current stk closure)
  obtain stk' cl' where pe: "push_eps (succs A current epsilon) stk closure = (stk', cl')"
    by (cases "push_eps (succs A current epsilon) stk closure")
  from "2.prems" have c: "current \<in> R" and sr: "set stk \<subseteq> R" by simp_all
  from "2.prems"(1) c have cs: "set (succs A current epsilon) \<subseteq> R" by blast
  have s: "set stk' \<subseteq> R" using push_eps_stack[OF pe] sr cs by blast
  have l: "set cl' \<subseteq> R" using push_eps_set[OF pe] "2.prems"(3) cs by blast
  from "2.IH"[OF pe[symmetric] "2.prems"(1) s l] pe show ?case by simp
qed

lemma epsilonClosure_closed:
  assumes "sym_closed A alphabet R" and "set X \<subseteq> R"
  shows "set (epsilonClosure A X []) \<subseteq> R"
proof -
  have c: "\<forall>q \<in> R. set (succs A q epsilon) \<subseteq> R"
    using assms(1) by (simp add: sym_closed_def)
  have "set (rev X) \<subseteq> R" "set (insert_states X []) \<subseteq> R" using assms(2) by simp_all
  from eclose_loop_closed[OF c this] show ?thesis by (simp add: epsilonClosure_def)
qed

lemma nfa_move_closed:
  assumes "sym_closed A alphabet R" and "set S \<subseteq> R"
  shows "set (nfa_move A S c) \<subseteq> R"
proof -
  have "set (succs A q c) \<subseteq> R" if "q \<in> set S" for q
    using assms that unfolding sym_closed_def by blast
  then show ?thesis unfolding nfa_move_set by blast
qed

lemma nfa_move_outside:
  assumes "sym_closed A alphabet R" and "set S \<subseteq> R" and "c \<noteq> epsilon" and "c \<notin> set alphabet"
  shows "nfa_move A S c = []"
proof -
  have "succs A q c = []" if "q \<in> set S" for q
    using assms that unfolding sym_closed_def by blast
  then have "set (nfa_move A S c) = {}" unfolding nfa_move_set by simp
  then show ?thesis by simp
qed

lemma nfa_move_Nil [simp]: "nfa_move A [] c = []"
  by (simp add: nfa_move_def)

lemma epsilonClosure_Nil [simp]: "epsilonClosure A [] [] = []"
  by (simp add: epsilonClosure_def)

lemma spec_nfa_step_Nil [simp]: "spec_nfa_step A [] c = []"
  by (simp add: spec_nfa_step_def)

lemma spec_nfa_run_Nil [simp]: "spec_nfa_run A [] w = []"
  by (induction w) auto

subsection \<open>The invariant of the work list\<close>

definition edge_ok :: "State list \<Rightarrow> char list \<Rightarrow> DFAState list \<Rightarrow> nat \<Rightarrow> char \<times> nat \<Rightarrow> bool" where
  "edge_ok A alphabet D j p =
     (fst p \<noteq> epsilon \<and> fst p \<in> set alphabet \<and> snd p < length D \<and>
      nfa_move A (nfaStates (D ! j)) (fst p) \<noteq> [] \<and>
      nfaStates (D ! snd p) = epsilonClosure A (nfa_move A (nfaStates (D ! j)) (fst p)) [])"

definition state_ok :: "State list \<Rightarrow> char list \<Rightarrow> nat set \<Rightarrow> DFAState list \<Rightarrow> nat \<Rightarrow> bool" where
  "state_ok A alphabet R D j =
     (dfa_isFinal (D ! j) = any_final A (nfaStates (D ! j)) \<and>
      set (nfaStates (D ! j)) \<subseteq> R \<and> sorted (nfaStates (D ! j)) \<and> distinct (nfaStates (D ! j)) \<and>
      distinct (map fst (dfa_transitions (D ! j))) \<and>
      (\<forall>p \<in> set (dfa_transitions (D ! j)). edge_ok A alphabet D j p))"

definition map_ok :: "(nat list \<times> nat) list \<Rightarrow> DFAState list \<Rightarrow> bool" where
  "map_ok M D =
     ((\<forall>k j. map_of M k = Some j \<longrightarrow> j < length D \<and> nfaStates (D ! j) = k) \<and>
      (\<forall>j < length D. map_of M (nfaStates (D ! j)) = Some j))"

fun dfa_inv :: "State list \<Rightarrow> char list \<Rightarrow> nat set \<Rightarrow> dfa_work \<Rightarrow> bool" where
  "dfa_inv A alphabet R (Work M D stk) =
     (map_ok M D \<and> (\<forall>j < length D. state_ok A alphabet R D j) \<and> (\<forall>j \<in> set stk. j < length D))"

definition add_edge :: "char \<Rightarrow> nat \<Rightarrow> DFAState \<Rightarrow> DFAState" where
  "add_edge c t d = d\<lparr>dfa_transitions := AList.update c t (dfa_transitions d)\<rparr>"

lemma add_edge_simps [simp]:
  "nfaStates (add_edge c t d) = nfaStates d"
  "dfa_isFinal (add_edge c t d) = dfa_isFinal d"
  "dfa_transitions (add_edge c t d) = AList.update c t (dfa_transitions d)"
  by (simp_all add: add_edge_def)

lemma nfaStates_update_edge:
  "nfaStates (D[cur := add_edge c t (D ! cur)] ! j) = nfaStates (D ! j)"
  by (cases "j = cur"; cases "cur < length D") (simp_all add: list_update_beyond)

lemma isFinal_update_edge:
  "dfa_isFinal (D[cur := add_edge c t (D ! cur)] ! j) = dfa_isFinal (D ! j)"
  by (cases "j = cur"; cases "cur < length D") (simp_all add: list_update_beyond)

lemma edge_ok_update_edge:
  "edge_ok A alphabet (D[cur := add_edge c t (D ! cur)]) j p = edge_ok A alphabet D j p"
  by (simp add: edge_ok_def nfaStates_update_edge)

lemma edge_ok_append:
  "edge_ok A alphabet D j p \<Longrightarrow> j < length D \<Longrightarrow> edge_ok A alphabet (D @ [d]) j p"
  by (auto simp: edge_ok_def nth_append)

lemma set_update_subset: "set (AList.update k v al) \<subseteq> insert (k, v) (set al)"
  by (induction al) auto

lemma state_ok_append:
  assumes ok: "state_ok A alphabet R D j" and j: "j < length D"
  shows "state_ok A alphabet R (D @ [d]) j"
proof -
  have "edge_ok A alphabet (D @ [d]) j p" if "p \<in> set (dfa_transitions (D ! j))" for p
    using ok that j by (auto simp: state_ok_def intro: edge_ok_append)
  with ok j show ?thesis by (simp add: state_ok_def nth_append)
qed

lemma map_ok_edge:
  "map_ok M D \<Longrightarrow> map_ok M (D[cur := add_edge c t (D ! cur)])"
  by (simp add: map_ok_def nfaStates_update_edge)

lemma state_ok_edge_other:
  assumes "state_ok A alphabet R D j" and "j \<noteq> cur"
  shows "state_ok A alphabet R (D[cur := add_edge c t (D ! cur)]) j"
  using assms by (simp add: state_ok_def edge_ok_update_edge nfaStates_update_edge
      isFinal_update_edge)

lemma state_ok_edge_cur:
  assumes ok: "state_ok A alphabet R D cur" and cur: "cur < length D"
    and e: "edge_ok A alphabet D cur (c, t)"
  shows "state_ok A alphabet R (D[cur := add_edge c t (D ! cur)]) cur"
proof -
  let ?D = "D[cur := add_edge c t (D ! cur)]"
  have tr: "dfa_transitions (?D ! cur) = AList.update c t (dfa_transitions (D ! cur))"
    using cur by simp
  have d: "distinct (map fst (dfa_transitions (?D ! cur)))"
    using ok by (simp add: tr state_ok_def distinct_update)
  have "edge_ok A alphabet ?D cur p" if "p \<in> set (dfa_transitions (?D ! cur))" for p
  proof -
    from that tr set_update_subset[of c t "dfa_transitions (D ! cur)"]
    have "p = (c, t) \<or> p \<in> set (dfa_transitions (D ! cur))" by auto
    then have "edge_ok A alphabet D cur p" using e ok by (auto simp: state_ok_def)
    then show ?thesis by (simp add: edge_ok_update_edge)
  qed
  with d ok show ?thesis
    by (simp add: state_ok_def nfaStates_update_edge isFinal_update_edge)
qed

lemma inv_edge:
  assumes inv: "dfa_inv A alphabet R (Work M D stk)" and cur: "cur < length D"
    and e: "edge_ok A alphabet D cur (c, t)"
  shows "dfa_inv A alphabet R (Work M (D[cur := add_edge c t (D ! cur)]) stk)"
proof -
  have "state_ok A alphabet R (D[cur := add_edge c t (D ! cur)]) j" if "j < length D" for j
  proof (cases "j = cur")
    case True
    with inv cur e show ?thesis by (simp add: state_ok_edge_cur)
  next
    case False
    with inv that show ?thesis by (simp add: state_ok_edge_other)
  qed
  with inv show ?thesis by (simp add: map_ok_edge)
qed

lemma state_ok_new:
  assumes "set cl \<subseteq> R" "sorted cl" "distinct cl"
  shows "state_ok A alphabet R (D @ [new_dfa_state A cl]) (length D)"
  using assms by (simp add: state_ok_def new_dfa_state_def)

lemma map_ok_new:
  assumes m: "map_ok M D" and n: "map_of M cl = None"
  shows "map_ok (AList.update cl (length D) M) (D @ [new_dfa_state A cl])"
proof -
  let ?M = "AList.update cl (length D) M" and ?D = "D @ [new_dfa_state A cl]"
  have 1: "j < length ?D \<and> nfaStates (?D ! j) = k" if a: "map_of ?M k = Some j" for k j
  proof (cases "k = cl")
    case True
    with a have "j = length D" by (simp add: update_conv')
    with True show ?thesis by (simp add: new_dfa_state_def)
  next
    case False
    with a have "map_of M k = Some j" by (simp add: update_conv')
    with m have "j < length D \<and> nfaStates (D ! j) = k" by (simp add: map_ok_def)
    then show ?thesis by (simp add: nth_append)
  qed
  have 2: "map_of ?M (nfaStates (?D ! j)) = Some j" if j: "j < length ?D" for j
  proof (cases "j < length D")
    case True
    with m have s: "map_of M (nfaStates (D ! j)) = Some j" by (simp add: map_ok_def)
    with n have "nfaStates (D ! j) \<noteq> cl" by auto
    with s True show ?thesis by (simp add: update_conv' nth_append)
  next
    case False
    with j have "j = length D" by simp
    then show ?thesis by (simp add: update_conv' new_dfa_state_def)
  qed
  from 1 2 show ?thesis unfolding map_ok_def by blast
qed

lemma inv_new:
  assumes inv: "dfa_inv A alphabet R (Work M D stk)" and n: "map_of M cl = None"
    and cl: "set cl \<subseteq> R" "sorted cl" "distinct cl"
  shows "dfa_inv A alphabet R
           (Work (AList.update cl (length D) M) (D @ [new_dfa_state A cl]) (length D # stk))"
proof -
  have "state_ok A alphabet R (D @ [new_dfa_state A cl]) j"
    if "j < length (D @ [new_dfa_state A cl])" for j
  proof (cases "j < length D")
    case True
    with inv show ?thesis by (simp add: state_ok_append)
  next
    case False
    with that have "j = length D" by simp
    with cl show ?thesis by (simp add: state_ok_new)
  qed
  moreover have "\<forall>j \<in> set (length D # stk). j < length (D @ [new_dfa_state A cl])"
    using inv by (auto simp: less_Suc_eq)
  ultimately show ?thesis using inv n by (simp add: map_ok_new)
qed

subsection \<open>Progress of the work list\<close>

definition complete_on :: "State list \<Rightarrow> char set \<Rightarrow> DFAState list \<Rightarrow> nat \<Rightarrow> bool" where
  "complete_on A cs D j =
     (\<forall>c \<in> cs. c \<noteq> epsilon \<longrightarrow> nfa_move A (nfaStates (D ! j)) c \<noteq> [] \<longrightarrow>
        map_of (dfa_transitions (D ! j)) c \<noteq> None)"

definition extends :: "DFAState list \<Rightarrow> DFAState list \<Rightarrow> bool" where
  "extends D D' =
     (length D \<le> length D' \<and>
      (\<forall>j < length D. nfaStates (D' ! j) = nfaStates (D ! j) \<and>
         (\<forall>c. map_of (dfa_transitions (D ! j)) c \<noteq> None \<longrightarrow>
              map_of (dfa_transitions (D' ! j)) c \<noteq> None)))"

lemma extends_refl: "extends D D"
  by (simp add: extends_def)

lemma extends_trans: "extends D D' \<Longrightarrow> extends D' D'' \<Longrightarrow> extends D D''"
  unfolding extends_def by (metis le_trans less_le_trans)

lemma extends_append: "extends D (D @ [d])"
  by (simp add: extends_def nth_append)

lemma extends_edge: "extends D (D[cur := add_edge c t (D ! cur)])"
proof -
  let ?D = "D[cur := add_edge c t (D ! cur)]"
  have "map_of (dfa_transitions (?D ! j)) c' \<noteq> None"
    if j: "j < length D" and s: "map_of (dfa_transitions (D ! j)) c' \<noteq> None" for j c'
    using j s by (cases "j = cur") (simp_all add: update_conv')
  then show ?thesis unfolding extends_def by (simp add: nfaStates_update_edge)
qed

lemma complete_on_extends:
  "complete_on A cs D j \<Longrightarrow> extends D D' \<Longrightarrow> j < length D \<Longrightarrow> complete_on A cs D' j"
  unfolding complete_on_def extends_def by metis

lemma complete_on_union:
  "complete_on A cs D j \<Longrightarrow> complete_on A ds D j \<Longrightarrow> complete_on A (cs \<union> ds) D j"
  unfolding complete_on_def by blast

fun states_of :: "dfa_work \<Rightarrow> DFAState list" where
  "states_of (Work M D stk) = D"

fun stack_of :: "dfa_work \<Rightarrow> nat list" where
  "stack_of (Work M D stk) = stk"

definition progress :: "dfa_work \<Rightarrow> dfa_work \<Rightarrow> bool" where
  "progress w w' =
     (extends (states_of w) (states_of w') \<and>
      set (stack_of w') = set (stack_of w) \<union> {length (states_of w) ..< length (states_of w')})"

lemma progress_refl: "progress w w"
  by (simp add: progress_def extends_refl)

lemma progress_trans:
  assumes "progress w w'" and "progress w' w''"
  shows "progress w w''"
proof -
  from assms have l: "length (states_of w) \<le> length (states_of w')"
    "length (states_of w') \<le> length (states_of w'')"
    by (simp_all add: progress_def extends_def)
  then have "{length (states_of w) ..< length (states_of w')} \<union>
             {length (states_of w') ..< length (states_of w'')}
             = {length (states_of w) ..< length (states_of w'')}" by auto
  with assms show ?thesis
    by (auto simp: progress_def intro: extends_trans)
qed

lemma process_symbol_skip:
  "c = epsilon \<or> nfa_move A (nfaStates (D ! cur)) c = [] \<Longrightarrow>
   process_symbol A cur c (Work M D stk) = Work M D stk"
  by (auto simp: process_symbol_def advance_def)

lemma process_symbol_new:
  assumes "c \<noteq> epsilon" and "nfa_move A (nfaStates (D ! cur)) c \<noteq> []"
    and "map_of M (epsilonClosure A (nfa_move A (nfaStates (D ! cur)) c) []) = None"
  shows "process_symbol A cur c (Work M D stk) =
           Work (AList.update (epsilonClosure A (nfa_move A (nfaStates (D ! cur)) c) []) (length D) M)
             ((D @ [new_dfa_state A (epsilonClosure A (nfa_move A (nfaStates (D ! cur)) c) [])])
                [cur := add_edge c (length D)
                   ((D @ [new_dfa_state A (epsilonClosure A (nfa_move A (nfaStates (D ! cur)) c) [])]) ! cur)])
             (length D # stk)"
  using assms by (simp add: process_symbol_def advance_def add_edge_def)

lemma process_symbol_known:
  assumes "c \<noteq> epsilon" and "nfa_move A (nfaStates (D ! cur)) c \<noteq> []"
    and "map_of M (epsilonClosure A (nfa_move A (nfaStates (D ! cur)) c) []) = Some t"
  shows "process_symbol A cur c (Work M D stk) = Work M (D[cur := add_edge c t (D ! cur)]) stk"
  using assms by (simp add: process_symbol_def advance_def add_edge_def)

lemma complete_on_edge:
  assumes "cur < length D"
  shows "complete_on A {c} (D[cur := add_edge c t (D ! cur)]) cur"
  using assms by (simp add: complete_on_def update_conv')

lemma process_symbol_step:
  assumes inv: "dfa_inv A alphabet R w" and closed: "sym_closed A alphabet R"
    and cur: "cur < length (states_of w)" and c: "c \<in> set alphabet"
  shows "dfa_inv A alphabet R (process_symbol A cur c w) \<and>
         progress w (process_symbol A cur c w) \<and>
         complete_on A {c} (states_of (process_symbol A cur c w)) cur"
proof (cases w)
  case (Work M D stk)
  let ?mv = "nfa_move A (nfaStates (D ! cur)) c"
  let ?cl = "epsilonClosure A ?mv []"
  from cur Work have curD: "cur < length D" by simp
  from inv Work have invD: "dfa_inv A alphabet R (Work M D stk)" by simp
  from invD curD have sok: "state_ok A alphabet R D cur" by simp
  show ?thesis
  proof (cases "c = epsilon \<or> ?mv = []")
    case True
    then have eq: "process_symbol A cur c w = w"
      unfolding Work by (rule process_symbol_skip)
    from True have "complete_on A {c} D cur" by (auto simp: complete_on_def)
    with inv eq Work show ?thesis by (simp add: progress_refl)
  next
    case False
    then have ne: "c \<noteq> epsilon" and mv: "?mv \<noteq> []" by simp_all
    from sok have "set (nfaStates (D ! cur)) \<subseteq> R" by (simp add: state_ok_def)
    then have "set ?mv \<subseteq> R" by (rule nfa_move_closed[OF closed])
    then have clR: "set ?cl \<subseteq> R" by (rule epsilonClosure_closed[OF closed])
    show ?thesis
    proof (cases "map_of M ?cl")
      case None
      let ?D1 = "D @ [new_dfa_state A ?cl]"
      let ?M1 = "AList.update ?cl (length D) M"
      let ?D2 = "?D1[cur := add_edge c (length D) (?D1 ! cur)]"
      have eq: "process_symbol A cur c (Work M D stk) = Work ?M1 ?D2 (length D # stk)"
        using ne mv None by (rule process_symbol_new)
      have inv1: "dfa_inv A alphabet R (Work ?M1 ?D1 (length D # stk))"
        using invD None clR epsilonClosure_sorted epsilonClosure_distinct by (rule inv_new)
      have cur1: "cur < length ?D1" using curD by simp
      have e: "edge_ok A alphabet ?D1 cur (c, length D)"
        using ne c mv curD by (simp add: edge_ok_def nth_append new_dfa_state_def)
      have inv2: "dfa_inv A alphabet R (Work ?M1 ?D2 (length D # stk))"
        using inv1 cur1 e by (rule inv_edge)
      have ext: "extends D ?D2"
        using extends_append extends_edge by (rule extends_trans)
      have "set (length D # stk) = set stk \<union> {length D ..< length ?D2}" by auto
      with ext have pr: "progress (Work M D stk) (Work ?M1 ?D2 (length D # stk))"
        by (simp add: progress_def)
      have co: "complete_on A {c} ?D2 cur" using cur1 by (rule complete_on_edge)
      from inv2 pr co show ?thesis unfolding Work eq states_of.simps by blast
    next
      case (Some t)
      let ?D2 = "D[cur := add_edge c t (D ! cur)]"
      have eq: "process_symbol A cur c (Work M D stk) = Work M ?D2 stk"
        using ne mv Some by (rule process_symbol_known)
      from invD Some have t: "t < length D" "nfaStates (D ! t) = ?cl"
        by (simp_all add: map_ok_def)
      have e: "edge_ok A alphabet D cur (c, t)"
        using ne c mv t by (simp add: edge_ok_def)
      have inv2: "dfa_inv A alphabet R (Work M ?D2 stk)"
        using invD curD e by (rule inv_edge)
      have pr: "progress (Work M D stk) (Work M ?D2 stk)"
        by (simp add: progress_def extends_edge)
      have co: "complete_on A {c} ?D2 cur" using curD by (rule complete_on_edge)
      from inv2 pr co show ?thesis unfolding Work eq states_of.simps by blast
    qed
  qed
qed

lemma progress_length: "progress w w' \<Longrightarrow> length (states_of w) \<le> length (states_of w')"
  by (simp add: progress_def extends_def)

lemma process_alphabet_step:
  assumes closed: "sym_closed A alphabet R"
  shows "dfa_inv A alphabet R w \<Longrightarrow> cur < length (states_of w) \<Longrightarrow> set cs \<subseteq> set alphabet \<Longrightarrow>
         dfa_inv A alphabet R (process_alphabet A cur cs w) \<and>
         progress w (process_alphabet A cur cs w) \<and>
         complete_on A (set cs) (states_of (process_alphabet A cur cs w)) cur"
proof (induction cs arbitrary: w)
  case Nil
  then show ?case by (simp add: progress_refl complete_on_def)
next
  case (Cons c cs)
  let ?w1 = "process_symbol A cur c w"
  let ?w2 = "process_alphabet A cur cs ?w1"
  from Cons.prems have c: "c \<in> set alphabet" and cs: "set cs \<subseteq> set alphabet" by simp_all
  from process_symbol_step[OF Cons.prems(1) closed Cons.prems(2) c]
  have i1: "dfa_inv A alphabet R ?w1" and p1: "progress w ?w1"
    and c1: "complete_on A {c} (states_of ?w1) cur" by simp_all
  from p1 Cons.prems(2) have cur1: "cur < length (states_of ?w1)"
    using progress_length by fastforce
  from Cons.IH[OF i1 cur1 cs]
  have i2: "dfa_inv A alphabet R ?w2" and p2: "progress ?w1 ?w2"
    and c2: "complete_on A (set cs) (states_of ?w2) cur" by simp_all
  from p2 have "extends (states_of ?w1) (states_of ?w2)" by (simp add: progress_def)
  from complete_on_extends[OF c1 this cur1]
  have "complete_on A {c} (states_of ?w2) cur" .
  from complete_on_union[OF this c2]
  have "complete_on A (set (c # cs)) (states_of ?w2) cur" by simp
  with i2 progress_trans[OF p1 p2] show ?case by simp
qed

definition loop_inv :: "State list \<Rightarrow> char list \<Rightarrow> nat set \<Rightarrow> dfa_work \<Rightarrow> bool" where
  "loop_inv A alphabet R w =
     (dfa_inv A alphabet R w \<and>
      (\<forall>j < length (states_of w). j \<notin> set (stack_of w) \<longrightarrow>
         complete_on A (set alphabet) (states_of w) j))"

definition final_ok :: "State list \<Rightarrow> char list \<Rightarrow> nat set \<Rightarrow> DFAState list \<Rightarrow> bool" where
  "final_ok A alphabet R D =
     ((\<exists>M. dfa_inv A alphabet R (Work M D [])) \<and>
      (\<forall>j < length D. complete_on A (set alphabet) D j))"

lemma dfa_loop_result:
  "sym_closed A alphabet R \<Longrightarrow> loop_inv A alphabet R w \<Longrightarrow>
   final_ok A alphabet R (dfa_loop A alphabet w) \<and> extends (states_of w) (dfa_loop A alphabet w)"
proof (induction A alphabet w rule: dfa_loop.induct)
  case (1 A alphabet M D)
  then show ?case by (auto simp: loop_inv_def final_ok_def extends_refl)
next
  case (2 A alphabet M D cur stk)
  let ?w0 = "Work M D stk"
  let ?w1 = "process_alphabet A cur alphabet ?w0"
  from "2.prems"(2) have inv0: "dfa_inv A alphabet R ?w0" and cur: "cur < length (states_of ?w0)"
    by (simp_all add: loop_inv_def)
  from process_alphabet_step[OF "2.prems"(1) inv0 cur subset_refl]
  have i1: "dfa_inv A alphabet R ?w1" and p1: "progress ?w0 ?w1"
    and c1: "complete_on A (set alphabet) (states_of ?w1) cur" by simp_all
  from p1 have ext: "extends D (states_of ?w1)"
    and stk1: "set (stack_of ?w1) = set stk \<union> {length D ..< length (states_of ?w1)}"
    by (simp_all add: progress_def)
  have "complete_on A (set alphabet) (states_of ?w1) j"
    if j: "j < length (states_of ?w1)" and n: "j \<notin> set (stack_of ?w1)" for j
  proof (cases "j = cur")
    case True
    with c1 show ?thesis by simp
  next
    case False
    from j n stk1 have jD: "j < length D" and "j \<notin> set stk" by auto
    with False "2.prems"(2) have "complete_on A (set alphabet) D j"
      by (simp add: loop_inv_def)
    then show ?thesis using ext jD by (rule complete_on_extends)
  qed
  with i1 have "loop_inv A alphabet R ?w1" by (simp add: loop_inv_def)
  from "2.IH"[OF "2.prems"(1) this]
  have f: "final_ok A alphabet R (dfa_loop A alphabet ?w1)"
    and e: "extends (states_of ?w1) (dfa_loop A alphabet ?w1)" by simp_all
  from extends_trans[OF ext e] f show ?case by simp
qed

lemma initial_loop_inv:
  assumes closed: "sym_closed A alphabet R" and s: "s \<in> R"
  shows "loop_inv A alphabet R (initial_work A (epsilonClosure A [s] []))"
proof -
  let ?cl = "epsilonClosure A [s] []"
  from s have "set [s] \<subseteq> R" by simp
  then have "set ?cl \<subseteq> R" by (rule epsilonClosure_closed[OF closed])
  then have "state_ok A alphabet R [new_dfa_state A ?cl] 0"
    using state_ok_new[of ?cl R A alphabet "[]"] epsilonClosure_sorted epsilonClosure_distinct
    by simp
  moreover have "map_ok [(?cl, 0)] [new_dfa_state A ?cl]"
    by (auto simp: map_ok_def new_dfa_state_def split: if_splits)
  ultimately show ?thesis by (simp add: loop_inv_def initial_work_def)
qed

lemma convertToDFA_ok:
  assumes closed: "sym_closed A (getAlphabet A nfa) R" and s: "frag_start nfa \<in> R"
  shows "final_ok A (getAlphabet A nfa) R (convertToDFA A nfa)"
    and "0 < length (convertToDFA A nfa)"
    and "nfaStates (convertToDFA A nfa ! 0) = epsilonClosure A [frag_start nfa] []"
proof -
  let ?w = "initial_work A (epsilonClosure A [frag_start nfa] [])"
  from dfa_loop_result[OF closed initial_loop_inv[OF closed s]]
  have f: "final_ok A (getAlphabet A nfa) R (convertToDFA A nfa)"
    and e: "extends (states_of ?w) (convertToDFA A nfa)"
    by (simp_all add: convertToDFA_def)
  from f show "final_ok A (getAlphabet A nfa) R (convertToDFA A nfa)" .
  from e show "0 < length (convertToDFA A nfa)"
    by (auto simp: extends_def initial_work_def)
  from e show "nfaStates (convertToDFA A nfa ! 0) = epsilonClosure A [frag_start nfa] []"
    by (simp add: extends_def initial_work_def new_dfa_state_def)
qed

lemma no_epsilon_edge:
  assumes "state_ok A alphabet R D j"
  shows "map_of (dfa_transitions (D ! j)) epsilon = None"
proof (cases "map_of (dfa_transitions (D ! j)) epsilon")
  case None
  then show ?thesis .
next
  case (Some t)
  then have "(epsilon, t) \<in> set (dfa_transitions (D ! j))" by (rule map_of_SomeD)
  with assms have "edge_ok A alphabet D j (epsilon, t)" by (simp add: state_ok_def)
  then show ?thesis by (simp add: edge_ok_def)
qed

lemma simulation:
  assumes closed: "sym_closed A alphabet R" and ok: "final_ok A alphabet R D"
  shows "j < length D \<Longrightarrow>
         any_final A (spec_nfa_run A (nfaStates (D ! j)) w)
           = (case dfa_run D j w of None \<Rightarrow> False | Some q \<Rightarrow> dfa_final D q)"
proof (induction w arbitrary: j)
  case Nil
  from ok Nil have "state_ok A alphabet R D j" by (auto simp: final_ok_def)
  with Nil show ?case by (simp add: state_ok_def dfa_final_def)
next
  case (Cons c w)
  from ok Cons.prems have sok: "state_ok A alphabet R D j" by (auto simp: final_ok_def)
  show ?case
  proof (cases "map_of (dfa_transitions (D ! j)) c")
    case (Some t)
    then have "(c, t) \<in> set (dfa_transitions (D ! j))" by (rule map_of_SomeD)
    with sok have "edge_ok A alphabet D j (c, t)" by (simp add: state_ok_def)
    then have t: "t < length D" and ne: "c \<noteq> epsilon"
      and st: "nfaStates (D ! t) = spec_nfa_step A (nfaStates (D ! j)) c"
      by (simp_all add: edge_ok_def spec_nfa_step_def)
    from Cons.IH[OF t] st Some Cons.prems show ?thesis by (simp add: dfa_step_def)
  next
    case None
    have "spec_nfa_step A (nfaStates (D ! j)) c = []"
    proof (cases "c = epsilon")
      case True
      then show ?thesis by (simp add: spec_nfa_step_def)
    next
      case False
      have "nfa_move A (nfaStates (D ! j)) c = []"
      proof (cases "c \<in> set alphabet")
        case True
        from ok Cons.prems have "complete_on A (set alphabet) D j" by (simp add: final_ok_def)
        with True False
        have "nfa_move A (nfaStates (D ! j)) c \<noteq> [] \<longrightarrow>
              map_of (dfa_transitions (D ! j)) c \<noteq> None"
          unfolding complete_on_def by blast
        with None show ?thesis by blast
      next
        case out: False
        from sok have "set (nfaStates (D ! j)) \<subseteq> R" by (simp add: state_ok_def)
        from nfa_move_outside[OF closed this False out] show ?thesis .
      qed
      then show ?thesis by (simp add: spec_nfa_step_def)
    qed
    with None Cons.prems show ?thesis by (simp add: dfa_step_def any_final_def)
  qed
qed

text \<open>
  C1.  For every arena of NFA states, every fragment in it and every word, the
  simulation of the NFA by epsilon closures accepts the word if and only if the DFA that
  \<^verbatim>\<open>convertToDFA\<close> returns for the fragment accepts it.
\<close>

theorem convertToDFA_equivalent:
  "spec_nfa_accepts A nfa w = dfa_accepts (convertToDFA A nfa) w"
proof -
  from getAlphabet_closed obtain R where s: "frag_start nfa \<in> R"
    and closed: "sym_closed A (getAlphabet A nfa) R" by blast
  note ok = convertToDFA_ok[OF closed s]
  from simulation[OF closed ok(1) ok(2), of w] ok(3)
  show ?thesis by (simp add: spec_nfa_accepts_def dfa_accepts_def)
qed

text \<open>
  C5.  In the DFA that \<^verbatim>\<open>convertToDFA\<close> returns every state has at most one entry, so at
  most one successor, for a character; it has no entry for the epsilon label \<^verbatim>\<open>'\0'\<close>;
  every entry leads to a state of the DFA; and two states with the same set of NFA
  states are the same state.
\<close>

theorem convertToDFA_deterministic:
  "(\<forall>j < length (convertToDFA A nfa).
      distinct (map fst (dfa_transitions (convertToDFA A nfa ! j))) \<and>
      map_of (dfa_transitions (convertToDFA A nfa ! j)) epsilon = None \<and>
      (\<forall>p \<in> set (dfa_transitions (convertToDFA A nfa ! j)).
         fst p \<noteq> epsilon \<and> snd p < length (convertToDFA A nfa)))
   \<and> (\<forall>i < length (convertToDFA A nfa). \<forall>j < length (convertToDFA A nfa).
        set (nfaStates (convertToDFA A nfa ! i)) = set (nfaStates (convertToDFA A nfa ! j))
        \<longrightarrow> i = j)"
proof -
  let ?D = "convertToDFA A nfa"
  from getAlphabet_closed obtain R where s: "frag_start nfa \<in> R"
    and closed: "sym_closed A (getAlphabet A nfa) R" by blast
  from convertToDFA_ok(1)[OF closed s] obtain M
    where inv: "dfa_inv A (getAlphabet A nfa) R (Work M ?D [])"
    by (auto simp: final_ok_def)
  have sok: "state_ok A (getAlphabet A nfa) R ?D j" if "j < length ?D" for j
    using inv that by simp
  have 1: "distinct (map fst (dfa_transitions (?D ! j))) \<and>
           map_of (dfa_transitions (?D ! j)) epsilon = None \<and>
           (\<forall>p \<in> set (dfa_transitions (?D ! j)). fst p \<noteq> epsilon \<and> snd p < length ?D)"
    if j: "j < length ?D" for j
  proof -
    from sok[OF j] have d: "distinct (map fst (dfa_transitions (?D ! j)))"
      and e: "\<forall>p \<in> set (dfa_transitions (?D ! j)). edge_ok A (getAlphabet A nfa) ?D j p"
      unfolding state_ok_def by blast+
    from e have "\<forall>p \<in> set (dfa_transitions (?D ! j)). fst p \<noteq> epsilon \<and> snd p < length ?D"
      unfolding edge_ok_def by blast
    with d no_epsilon_edge[OF sok[OF j]] show ?thesis by blast
  qed
  have 2: "i = j" if i: "i < length ?D" and j: "j < length ?D"
    and e: "set (nfaStates (?D ! i)) = set (nfaStates (?D ! j))" for i j
  proof -
    from sok[OF i] sok[OF j] have "sorted (nfaStates (?D ! i))" "distinct (nfaStates (?D ! i))"
      "sorted (nfaStates (?D ! j))" "distinct (nfaStates (?D ! j))"
      by (simp_all add: state_ok_def)
    from sorted_distinct_set_unique[OF this e]
    have eq: "nfaStates (?D ! i) = nfaStates (?D ! j)" .
    from inv i j have mi: "map_of M (nfaStates (?D ! i)) = Some i"
      and mj: "map_of M (nfaStates (?D ! j)) = Some j" by (simp_all add: map_ok_def)
    from mi have mi': "map_of M (nfaStates (?D ! j)) = Some i" unfolding eq .
    have "Some i = Some j" by (rule trans[OF mi'[symmetric] mj])
    then show ?thesis by (rule option.inject[THEN iffD1])
  qed
  show ?thesis
  proof (rule conjI)
    show "\<forall>j < length ?D.
      distinct (map fst (dfa_transitions (?D ! j))) \<and>
      map_of (dfa_transitions (?D ! j)) epsilon = None \<and>
      (\<forall>p \<in> set (dfa_transitions (?D ! j)). fst p \<noteq> epsilon \<and> snd p < length ?D)"
    proof (intro allI impI)
      fix j assume "j < length ?D"
      then show "distinct (map fst (dfa_transitions (?D ! j))) \<and>
        map_of (dfa_transitions (?D ! j)) epsilon = None \<and>
        (\<forall>p \<in> set (dfa_transitions (?D ! j)). fst p \<noteq> epsilon \<and> snd p < length ?D)"
        by (rule 1)
    qed
  next
    show "\<forall>i < length ?D. \<forall>j < length ?D.
        set (nfaStates (?D ! i)) = set (nfaStates (?D ! j)) \<longrightarrow> i = j"
    proof (intro allI impI)
      fix i j assume "i < length ?D" "j < length ?D"
        "set (nfaStates (?D ! i)) = set (nfaStates (?D ! j))"
      then show "i = j" by (rule 2)
    qed
  qed
qed

lemma char_a_dfa:
  "convertToDFA char_a_arena char_a_nfa =
     [\<lparr>nfaStates = [0], dfa_transitions = [(CHR ''a'', 1)], dfa_isFinal = False\<rparr>,
      \<lparr>nfaStates = [1], dfa_transitions = [], dfa_isFinal = True\<rparr>]"
  unfolding char_a_arena_def char_a_nfa_def by code_simp

theorem convertToDFA_deterministic_witness:
  "0 < length (convertToDFA char_a_arena char_a_nfa)
   \<and> (CHR ''a'', 1) \<in> set (dfa_transitions (convertToDFA char_a_arena char_a_nfa ! 0))
   \<and> set (nfaStates (convertToDFA char_a_arena char_a_nfa ! 0))
       = set (nfaStates (convertToDFA char_a_arena char_a_nfa ! 0))
   \<and> distinct (map fst (dfa_transitions (convertToDFA char_a_arena char_a_nfa ! 0)))
   \<and> map_of (dfa_transitions (convertToDFA char_a_arena char_a_nfa ! 0)) epsilon = None
   \<and> fst (CHR ''a'', 1::nat) \<noteq> epsilon
   \<and> snd (CHR ''a'', 1::nat) < length (convertToDFA char_a_arena char_a_nfa)
   \<and> (0::nat) = 0"
proof -
  let ?D = "convertToDFA char_a_arena char_a_nfa"
  have a: "0 < length ?D" unfolding char_a_dfa by simp
  have b: "(CHR ''a'', 1) \<in> set (dfa_transitions (?D ! 0))" unfolding char_a_dfa by simp
  have c: "set (nfaStates (?D ! 0)) = set (nfaStates (?D ! 0))" by (rule refl)
  from convertToDFA_deterministic[of char_a_arena char_a_nfa] a b
  have d: "distinct (map fst (dfa_transitions (?D ! 0)))
     \<and> map_of (dfa_transitions (?D ! 0)) epsilon = None
     \<and> fst (CHR ''a'', 1::nat) \<noteq> epsilon \<and> snd (CHR ''a'', 1::nat) < length ?D"
    by blast
  from convertToDFA_deterministic[of char_a_arena char_a_nfa] a c
  have e: "(0::nat) = 0" by blast
  from a b c d e show ?thesis by blast
qed

section \<open>Properties of the character classes\<close>

lemma final_format_error:
  assumes "bad_format charClass"
  shows "parseCharacterClass charClass validChars = Inl InvalidFormat"
    and "createCharClassNFA charClass A = Inl InvalidFormat"
  using assms by (simp_all add: parseCharacterClass_def createCharClassNFA_def createState_def)

lemma leading_range_error:
  assumes "char_val y < char_val x"
  shows "parseCharacterClass (CHR ''['' # x # CHR ''-'' # y # rest @ '']'') validChars
           = Inl InvalidRange"
    and "chess_parseCharacterClass (CHR ''['' # x # CHR ''-'' # y # rest @ '']'') validChars
           = Inl InvalidRange"
    and "createCharClassNFA (CHR ''['' # x # CHR ''-'' # y # rest @ '']'') A = Inl InvalidRange"
    and "chess_createCharClassNFA (CHR ''['' # x # CHR ''-'' # y # rest @ '']'') A
           = Inl InvalidRange"
  using assms
  by (simp_all add: parseCharacterClass_def chess_parseCharacterClass_def bad_format_def
      content_of_def createCharClassNFA_def chess_createCharClassNFA_def createState_def)

text \<open>
  C2.  In Final.cpp the fragment of the class \<^verbatim>\<open>[0-9]\<close> has the transition on \<^verbatim>\<open>5\<close> from
  its start state to its end state, but the end state is not final: neither the
  simulation of the fragment nor its DFA accepts \<^verbatim>\<open>5\<close>.  In chessNot.cpp, where
  \<^verbatim>\<open>createCharClassNFA\<close> sets \<^verbatim>\<open>end->isFinal = true\<close>, both accept it.
\<close>

theorem final_char_class_end_not_final:
  "createCharClassNFA ''[0-9]'' [] = Inr (Built final_digits_arena first_two)
   \<and> succs final_digits_arena 0 (CHR ''5'') = [1]
   \<and> \<not> is_final final_digits_arena 1
   \<and> \<not> spec_nfa_accepts final_digits_arena first_two ''5''
   \<and> \<not> dfa_accepts (convertToDFA final_digits_arena first_two) ''5''
   \<and> chess_createCharClassNFA ''[0-9]'' [] = Inr (Built chess_digits_arena first_two)
   \<and> is_final chess_digits_arena 1
   \<and> spec_nfa_accepts chess_digits_arena first_two ''5''
   \<and> dfa_accepts (convertToDFA chess_digits_arena first_two) ''5''"
  unfolding final_digits_arena_def chess_digits_arena_def first_two_def by code_simp

text \<open>
  C4.  In chessNot.cpp a class without the brackets, here \<^verbatim>\<open>a-h\<close>, raises nothing:
  \<^verbatim>\<open>parseCharacterClass\<close> returns with the empty set and \<^verbatim>\<open>createCharClassNFA\<close> returns a
  fragment of two states without a transition.  In Final.cpp the same class is the
  format error.
\<close>

theorem chess_format_error_not_raised:
  "chess_parseCharacterClass ''a-h'' [] = Inr []
   \<and> chess_createCharClassNFA ''a-h'' [] = Inr (Built empty_class_arena first_two)
   \<and> parseCharacterClass ''a-h'' [] = Inl InvalidFormat
   \<and> createCharClassNFA ''a-h'' [] = Inl InvalidFormat"
  unfolding empty_class_arena_def first_two_def by code_simp

section \<open>Properties of the expression PDA\<close>










section \<open>Properties of the move-sequence validator\<close>

lemma validate_loop_mismatch:
  assumes "i + 1 < length tokens"
    and "ctype (tokens ! i) = MOVE_NUMBER"
    and "stoi (butlast (cvalue (tokens ! i))) = Some n"
    and "n \<noteq> expected"
  shows "validate_loop tokens i EXPECT_NUMBER expected out
           = (False, out @ [NumberMismatch expected n])"
  using assms by (subst validate_loop.simps) simp

lemma validate_example_mismatch:
  "validateMoveSequence tokens_1_e4_e5_3_Nf3 = (False, [NumberMismatch 2 3])"
  unfolding validateMoveSequence_def tokens_1_e4_e5_3_Nf3_def by code_simp

lemma validate_loop_number:
  assumes "i + 1 < length tokens" and "ctype (tokens ! i) = MOVE_NUMBER"
    and "stoi (butlast (cvalue (tokens ! i))) = Some e"
  shows "validate_loop tokens i EXPECT_NUMBER e out
           = validate_loop tokens (i + 1) EXPECT_WHITE_MOVE (e + 1) out"
  using assms by (subst validate_loop.simps) simp

lemma plain_move_type:
  assumes "plain_move t"
  shows "ctype t \<noteq> CHESS_END_OF_INPUT" "ctype t \<noteq> RESULT" "ctype t \<noteq> MOVE_NUMBER"
    "ctype t \<noteq> CHECKMATE" "isMoveToken (ctype t)"
  using assms by (auto simp: plain_move_def isMoveToken_def)

lemma validate_loop_white:
  assumes "i + 1 < length tokens" and "plain_move (tokens ! i)"
  shows "validate_loop tokens i EXPECT_WHITE_MOVE e out
           = validate_loop tokens (i + 1) EXPECT_BLACK_MOVE e out"
  using assms(1) plain_move_type[OF assms(2)] by (subst validate_loop.simps) simp

lemma validate_loop_black:
  assumes "i + 1 < length tokens" and "plain_move (tokens ! i)"
  shows "validate_loop tokens i EXPECT_BLACK_MOVE e out
           = validate_loop tokens (i + 1) EXPECT_NUMBER e out"
  using assms(1) plain_move_type[OF assms(2)] by (subst validate_loop.simps) simp

lemma validate_loop_round:
  assumes r: "round_at tokens r" and l: "3 * r + 3 < length tokens"
  shows "validate_loop tokens (3 * r) EXPECT_NUMBER (int r + 1) out
           = validate_loop tokens (3 * (r + 1)) EXPECT_NUMBER (int (r + 1) + 1) out"
proof -
  from r have n: "ctype (tokens ! (3 * r)) = MOVE_NUMBER"
    "stoi (butlast (cvalue (tokens ! (3 * r)))) = Some (int r + 1)"
    and w: "plain_move (tokens ! (3 * r + 1))" and b: "plain_move (tokens ! (3 * r + 2))"
    by (simp_all add: round_at_def)
  from l have l0: "3 * r + 1 < length tokens" and l1: "(3 * r + 1) + 1 < length tokens"
    and l2: "(3 * r + 2) + 1 < length tokens" by simp_all
  have "validate_loop tokens (3 * r) EXPECT_NUMBER (int r + 1) out
          = validate_loop tokens (3 * r + 1) EXPECT_WHITE_MOVE (int r + 1 + 1) out"
    by (rule validate_loop_number[OF l0 n])
  also have "\<dots> = validate_loop tokens (3 * r + 1 + 1) EXPECT_BLACK_MOVE (int r + 1 + 1) out"
    by (rule validate_loop_white[OF l1 w])
  also have "3 * r + 1 + 1 = 3 * r + 2" by simp
  also have "validate_loop tokens (3 * r + 2) EXPECT_BLACK_MOVE (int r + 1 + 1) out
          = validate_loop tokens (3 * r + 2 + 1) EXPECT_NUMBER (int r + 1 + 1) out"
    by (rule validate_loop_black[OF l2 b])
  also have "3 * r + 2 + 1 = 3 * (r + 1)" by simp
  also have "int r + 1 + 1 = int (r + 1) + 1" by simp
  finally show ?thesis .
qed

lemma validate_loop_rounds:
  "rounds tokens k \<Longrightarrow> 3 * k < length tokens \<Longrightarrow>
   validate_loop tokens 0 EXPECT_NUMBER 1 out
     = validate_loop tokens (3 * k) EXPECT_NUMBER (int k + 1) out"
proof (induction k)
  case 0
  show ?case by simp
next
  case (Suc k)
  from Suc.prems have rk: "rounds tokens k" and r: "round_at tokens k"
    and l: "3 * k + 3 < length tokens" by (simp_all add: rounds_def)
  from l have "3 * k < length tokens" by simp
  from Suc.IH[OF rk this] validate_loop_round[OF r l] show ?case by simp
qed

lemma validate_rounds_mismatch:
  assumes "rounds tokens k" and "3 * k + 1 < length tokens"
    and "ctype (tokens ! (3 * k)) = MOVE_NUMBER"
    and "stoi (butlast (cvalue (tokens ! (3 * k)))) = Some n"
    and "n \<noteq> int k + 1"
  shows "validateMoveSequence tokens = (False, [NumberMismatch (int k + 1) n])"
proof -
  from assms(2) have "3 * k < length tokens" by simp
  from validate_loop_rounds[OF assms(1) this, of "[]"]
  have "validateMoveSequence tokens = validate_loop tokens (3 * k) EXPECT_NUMBER (int k + 1) []"
    by (simp add: validateMoveSequence_def)
  also have "\<dots> = (False, [] @ [NumberMismatch (int k + 1) n])"
    using assms(2-5) by (rule validate_loop_mismatch)
  finally show ?thesis by simp
qed

text \<open>
  C6.  When a token stream begins with \<open>k\<close> complete rounds and the token after them is
  a \<open>MOVE_NUMBER\<close> that is not the last token and whose text without its last character
  \<^verbatim>\<open>stoi\<close> reads as a number other than \<open>k + 1\<close>, the counter the validator expects
  there, then \<^verbatim>\<open>validateMoveSequence\<close> returns false and reports the expected and the
  found number.  For the tokens of \<^verbatim>\<open>1. e4 e5 3. Nf3\<close> it returns false with expected 2,
  found 3.
\<close>

theorem move_number_mismatch_rejected:
  "(\<forall>tokens k n.
      rounds tokens k \<longrightarrow> 3 * k + 1 < length tokens \<longrightarrow>
      ctype (tokens ! (3 * k)) = MOVE_NUMBER \<longrightarrow>
      stoi (butlast (cvalue (tokens ! (3 * k)))) = Some n \<longrightarrow> n \<noteq> int k + 1 \<longrightarrow>
      validateMoveSequence tokens = (False, [NumberMismatch (int k + 1) n]))
   \<and> validateMoveSequence tokens_1_e4_e5_3_Nf3 = (False, [NumberMismatch 2 3])"
  using validate_rounds_mismatch validate_example_mismatch by blast

lemma stoi_3: "stoi (butlast ''3.'') = Some 3"
  by code_simp

lemma stoi_1: "stoi (butlast ''1.'') = Some 1"
  by code_simp

lemma rounds_example: "rounds tokens_1_e4_e5_3_Nf3 1"
  using stoi_1
  by (simp add: rounds_def round_at_def tokens_1_e4_e5_3_Nf3_def plain_move_def isMoveToken_def)

theorem move_number_mismatch_rejected_witness:
  "rounds tokens_1_e4_e5_3_Nf3 1
   \<and> 3 * 1 + 1 < length tokens_1_e4_e5_3_Nf3
   \<and> ctype (tokens_1_e4_e5_3_Nf3 ! (3 * 1)) = MOVE_NUMBER
   \<and> stoi (butlast (cvalue (tokens_1_e4_e5_3_Nf3 ! (3 * 1)))) = Some 3
   \<and> (3::int) \<noteq> int 1 + 1
   \<and> validateMoveSequence tokens_1_e4_e5_3_Nf3 = (False, [NumberMismatch (int 1 + 1) 3])"
proof -
  have a: "3 * 1 + 1 < length tokens_1_e4_e5_3_Nf3" by (simp add: tokens_1_e4_e5_3_Nf3_def)
  have b: "ctype (tokens_1_e4_e5_3_Nf3 ! (3 * 1)) = MOVE_NUMBER"
    by (simp add: tokens_1_e4_e5_3_Nf3_def)
  have c: "stoi (butlast (cvalue (tokens_1_e4_e5_3_Nf3 ! (3 * 1)))) = Some 3"
    using stoi_3 by (simp add: tokens_1_e4_e5_3_Nf3_def)
  have d: "(3::int) \<noteq> int 1 + 1" by simp
  from move_number_mismatch_rejected rounds_example a b c d
  have "validateMoveSequence tokens_1_e4_e5_3_Nf3 = (False, [NumberMismatch (int 1 + 1) 3])"
    by blast
  with rounds_example a b c d show ?thesis by blast
qed

text \<open>
  C3.  The loop stops before the last token, so the end-of-input token that closes a
  token stream is never looked at: for the tokens of \<^verbatim>\<open>1.\<close> the validator is in
  \<open>EXPECT_WHITE_MOVE\<close> at the end and returns true, and for the tokens of \<^verbatim>\<open>1. e4\<close> it is
  in \<open>EXPECT_BLACK_MOVE\<close> and returns true without the half-move warning.
\<close>

theorem end_of_input_never_inspected:
  "validateMoveSequence tokens_1 = (True, [SuccessfullyParsed])
   \<and> validateMoveSequence tokens_1_e4 = (True, [SuccessfullyParsed])"
  unfolding validateMoveSequence_def tokens_1_def tokens_1_e4_def by code_simp

section \<open>Properties of the lexers\<close>

subsection \<open>The automata of the arithmetic lexer\<close>

lemma identifier_nfa_built:
  "createIdentifierNFA [] = Inr (Built identifier_states \<lparr>frag_start = 0, frag_end = 5\<rparr>)"
  by code_simp

lemma identifier_dfa_built:
  "convertToDFA identifier_states \<lparr>frag_start = 0, frag_end = 5\<rparr> = identifier_dfa"
  by code_simp

lemma number_nfa_built:
  "createNumberNFA identifier_states
     = Inr (Built (identifier_states @ number_states) \<lparr>frag_start = 6, frag_end = 17\<rparr>)"
  by code_simp

lemma number_dfa_built:
  "convertToDFA (identifier_states @ number_states) \<lparr>frag_start = 6, frag_end = 17\<rparr>
     = number_dfa"
  by code_simp

lemma new_Lexer_built: "new_Lexer = Inr final_lexer"
  by (simp add: new_Lexer_def final_lexer_def identifier_nfa_built identifier_dfa_built
      number_nfa_built number_dfa_built)

subsection \<open>The longest accepted prefix\<close>

lemma accepts_from_Nil [simp]: "accepts_from D q [] = dfa_final D q"
  by (simp add: accepts_from_def)

lemma accepts_from_Cons [simp]:
  "accepts_from D q (c # w)
     = (case dfa_step D q c of None \<Rightarrow> False | Some nxt \<Rightarrow> accepts_from D nxt w)"
  by (simp add: accepts_from_def split: option.splits)

lemma dfa_accepts_from: "dfa_accepts D w = accepts_from D 0 w"
  by (simp add: dfa_accepts_def accepts_from_def)

lemma no_match_stuck: "dfa_step D q c = None \<Longrightarrow> no_match D q (c # rest)"
  unfolding no_match_def
proof (intro allI impI)
  fix n :: nat assume s: "dfa_step D q c = None" and n: "0 < n"
  then obtain k where "n = Suc k" by (cases n) auto
  with s show "\<not> accepts_from D q (take n (c # rest))" by simp
qed

lemma no_match_step:
  assumes s: "dfa_step D q c = Some nxt" and f: "\<not> dfa_final D nxt" and r: "no_match D nxt rest"
  shows "no_match D q (c # rest)"
  unfolding no_match_def
proof (intro allI impI)
  fix n :: nat assume n: "0 < n" and l: "n \<le> length (c # rest)"
  then obtain k where k: "n = Suc k" by (cases n) auto
  show "\<not> accepts_from D q (take n (c # rest))"
  proof (cases k)
    case 0
    with k s f show ?thesis by simp
  next
    case (Suc j)
    with k l r have "\<not> accepts_from D nxt (take k rest)" by (simp add: no_match_def)
    with k s show ?thesis by simp
  qed
qed

lemma longest_at_one:
  assumes s: "dfa_step D q c = Some nxt" and f: "dfa_final D nxt" and r: "no_match D nxt rest"
  shows "longest_at D q (c # rest) 1"
  unfolding longest_at_def
proof (intro conjI allI impI)
  show "accepts_from D q (take 1 (c # rest))" using s f by simp
next
  fix k :: nat assume k0: "0 < k" and l: "k \<le> length (c # rest)"
    and a: "accepts_from D q (take k (c # rest))"
  from k0 obtain j where j: "k = Suc j" by (cases k) auto
  with a s have "accepts_from D nxt (take j rest)" by simp
  with r l j have "j = 0" by (cases j) (auto simp: no_match_def)
  with j show "k \<le> 1" by simp
qed simp_all

lemma longest_at_step:
  assumes s: "dfa_step D q c = Some nxt" and r: "longest_at D nxt rest n"
  shows "longest_at D q (c # rest) (Suc n)"
  unfolding longest_at_def
proof (intro conjI allI impI)
  show "accepts_from D q (take (Suc n) (c # rest))" using s r by (simp add: longest_at_def)
next
  show "Suc n \<le> length (c # rest)" using r by (simp add: longest_at_def)
next
  fix k :: nat assume k0: "0 < k" and l: "k \<le> length (c # rest)"
    and a: "accepts_from D q (take k (c # rest))"
  from k0 obtain j where j: "k = Suc j" by (cases k) auto
  with a s have aj: "accepts_from D nxt (take j rest)" by simp
  show "k \<le> Suc n"
  proof (cases j)
    case 0
    with j show ?thesis by simp
  next
    case (Suc i)
    with aj l j r have "j \<le> n" by (simp add: longest_at_def)
    with j show ?thesis by simp
  qed
qed simp

lemma match_loop_cases:
  "(match_loop D q rest consumed m = m \<and> no_match D q rest)
   \<or> (\<exists>n. longest_at D q rest n \<and> match_loop D q rest consumed m = Some (consumed @ take n rest))"
proof (induction rest arbitrary: q consumed m)
  case Nil
  show ?case by (simp add: no_match_def)
next
  case (Cons c rest)
  show ?case
  proof (cases "dfa_step D q c")
    case None
    with no_match_stuck[OF None] show ?thesis by simp
  next
    case (Some nxt)
    let ?m = "if dfa_final D nxt then Some (consumed @ [c]) else m"
    have eq: "match_loop D q (c # rest) consumed m = match_loop D nxt rest (consumed @ [c]) ?m"
      using Some by simp
    from Cons.IH[of nxt "consumed @ [c]" ?m]
    consider (stuck) "match_loop D nxt rest (consumed @ [c]) ?m = ?m" "no_match D nxt rest"
      | (found) n where "longest_at D nxt rest n"
          "match_loop D nxt rest (consumed @ [c]) ?m = Some ((consumed @ [c]) @ take n rest)"
      by blast
    then show ?thesis
    proof cases
      case stuck
      show ?thesis
      proof (cases "dfa_final D nxt")
        case True
        from longest_at_one[OF Some True stuck(2)] stuck(1) True eq
        have "longest_at D q (c # rest) 1
              \<and> match_loop D q (c # rest) consumed m = Some (consumed @ take 1 (c # rest))"
          by simp
        then show ?thesis by blast
      next
        case False
        from no_match_step[OF Some False stuck(2)] stuck(1) False eq show ?thesis by simp
      qed
    next
      case found
      from longest_at_step[OF Some found(1)] found(2) eq
      have "longest_at D q (c # rest) (Suc n)
            \<and> match_loop D q (c # rest) consumed m = Some (consumed @ take (Suc n) (c # rest))"
        by simp
      then show ?thesis by blast
    qed
  qed
qed

lemma match_loop_None:
  "match_loop D 0 w [] None = None \<Longrightarrow> no_match D 0 w"
  using match_loop_cases[of D 0 w "[]" None] by auto






subsection \<open>Progress of the tokenizers\<close>

definition scan_ok :: "scan \<Rightarrow> bool" where
  "scan_ok s =
     ((\<forall>t \<in> set (scan_tokens s). tok_value t \<noteq> [] \<and> tok_position t < int (scan_pos s)) \<and>
      sorted_wrt (<) (map tok_position (scan_tokens s)))"

definition tokens_ok :: "Token list \<Rightarrow> bool" where
  "tokens_ok r =
     ((\<forall>t \<in> set (butlast r). tok_value t \<noteq> []) \<and>
      sorted_wrt (<) (map tok_position r))"

lemma getNextToken_position: "tok_position (getNextToken L input startPos) = int startPos"
  by (simp add: getNextToken_def tryMatchDFA_def split: option.splits)

lemma tokenize_step_ok:
  assumes "scan_ok s"
  shows "scan_ok (tokenize_step L input s)"
proof (cases "isspace (input ! scan_pos s)")
  case True
  with assms show ?thesis by (auto simp: scan_ok_def tokenize_step_def)
next
  case False
  let ?t = "getNextToken L input (scan_pos s)"
  have v: "tok_value ?t \<noteq> []" by (rule getNextToken_value)
  have p: "tok_position ?t = int (scan_pos s)" by (rule getNextToken_position)
  have st: "tokenize_step L input s
              = Scan (scan_pos s + length (tok_value ?t)) (scan_tokens s @ [?t])"
    using False by (simp add: tokenize_step_def)
  from v have l: "0 < length (tok_value ?t)" by simp
  have a: "\<forall>t \<in> set (scan_tokens s @ [?t]).
             tok_value t \<noteq> [] \<and> tok_position t < int (scan_pos s + length (tok_value ?t))"
    using assms v p l by (auto simp: scan_ok_def)
  have b: "sorted_wrt (<) (map tok_position (scan_tokens s @ [?t]))"
    using assms p by (auto simp: scan_ok_def sorted_wrt_append)
  from a b show ?thesis unfolding st scan_ok_def by simp
qed

lemma tokenize_loop_ok: "scan_ok s \<Longrightarrow> tokens_ok (tokenize_loop L input s)"
proof (induction L input s rule: tokenize_loop.induct)
  case (1 L input s)
  show ?case
  proof (cases "scan_pos s < length input")
    case True
    from "1.IH"[OF True tokenize_step_ok[OF "1.prems"]] True show ?thesis by simp
  next
    case False
    with "1.prems" show ?thesis
      by (auto simp: tokens_ok_def scan_ok_def sorted_wrt_append)
  qed
qed

lemma tokenize_ok: "tokens_ok (tokenize L input)"
  unfolding tokenize_def by (rule tokenize_loop_ok) (simp add: scan_ok_def)

definition tokenize_exit :: "scan \<Rightarrow> Token list" where
  "tokenize_exit s =
     scan_tokens s @
       [\<lparr>tok_type = END_OF_INPUT, tok_value = [], tok_position = int (scan_pos s)\<rparr>]"

lemma tokenize_loop_iterations:
  "\<exists>k \<le> length input - scan_pos s.
     length input \<le> scan_pos ((tokenize_step L input ^^ k) s) \<and>
     tokenize_loop L input s = tokenize_exit ((tokenize_step L input ^^ k) s)"
proof (induction L input s rule: tokenize_loop.induct)
  case (1 L input s)
  show ?case
  proof (cases "scan_pos s < length input")
    case False
    then have "length input \<le> scan_pos ((tokenize_step L input ^^ 0) s) \<and>
      tokenize_loop L input s = tokenize_exit ((tokenize_step L input ^^ 0) s)"
      by (simp add: tokenize_exit_def)
    then show ?thesis by blast
  next
    case True
    let ?s = "tokenize_step L input s"
    from "1.IH"[OF True] obtain k where k: "k \<le> length input - scan_pos ?s"
      and e: "length input \<le> scan_pos ((tokenize_step L input ^^ k) ?s)"
      and r: "tokenize_loop L input ?s = tokenize_exit ((tokenize_step L input ^^ k) ?s)"
      by blast
    have f: "(tokenize_step L input ^^ Suc k) s = (tokenize_step L input ^^ k) ?s"
      by (simp add: funpow_swap1)
    from tokenize_step_advances[of s L input] k True
    have "Suc k \<le> length input - scan_pos s" by simp
    moreover from e f have "length input \<le> scan_pos ((tokenize_step L input ^^ Suc k) s)"
      by simp
    moreover from r f True
    have "tokenize_loop L input s = tokenize_exit ((tokenize_step L input ^^ Suc k) s)"
      by simp
    ultimately show ?thesis by blast
  qed
qed

definition chess_scan_ok :: "chess_scan \<Rightarrow> bool" where
  "chess_scan_ok s =
     ((\<forall>t \<in> set (cscan_tokens s). cvalue t \<noteq> [] \<and> cposition t < int (cscan_pos s)) \<and>
      sorted_wrt (<) (map cposition (cscan_tokens s)))"

definition chess_tokens_ok :: "ChessToken list \<Rightarrow> bool" where
  "chess_tokens_ok r =
     ((\<forall>t \<in> set (butlast r). cvalue t \<noteq> []) \<and> sorted_wrt (<) (map cposition r))"

lemma chess_tokenize_step_ok:
  assumes "chess_scan_ok s"
  shows "chess_scan_ok (chess_tokenize_step L input s)"
proof -
  let ?t = "chess_getNextToken L input (cscan_pos s)"
  consider (space) "isspace (input ! cscan_pos s)"
    | (invalid) "\<not> isspace (input ! cscan_pos s)" "ctype ?t = CHESS_INVALID"
    | (token) "\<not> isspace (input ! cscan_pos s)" "ctype ?t \<noteq> CHESS_INVALID" by blast
  then show ?thesis
  proof cases
    case space
    with assms show ?thesis by (auto simp: chess_scan_ok_def chess_tokenize_step_def)
  next
    case invalid
    with assms show ?thesis by (auto simp: chess_scan_ok_def chess_tokenize_step_def)
  next
    case token
    have v: "cvalue ?t \<noteq> []" using token(2) by (rule chess_getNextToken_value)
    have p: "cposition ?t = int (cscan_pos s)" by (rule chess_getNextToken_position)
    have st: "chess_tokenize_step L input s
                = ChessScan (cscan_pos s + length (cvalue ?t)) (cscan_tokens s @ [?t])
                    (hadLexicalError s)"
      using token by (simp add: chess_tokenize_step_def)
    from v have l: "0 < length (cvalue ?t)" by simp
    have a: "\<forall>t \<in> set (cscan_tokens s @ [?t]).
               cvalue t \<noteq> [] \<and> cposition t < int (cscan_pos s + length (cvalue ?t))"
      using assms v p l by (auto simp: chess_scan_ok_def)
    have b: "sorted_wrt (<) (map cposition (cscan_tokens s @ [?t]))"
      using assms p by (auto simp: chess_scan_ok_def sorted_wrt_append)
    from a b show ?thesis unfolding st chess_scan_ok_def by simp
  qed
qed

lemma chess_tokenize_loop_ok:
  "chess_scan_ok s \<Longrightarrow> chess_tokens_ok (fst (chess_tokenize_loop L input s))"
proof (induction L input s rule: chess_tokenize_loop.induct)
  case (1 L input s)
  show ?case
  proof (cases "cscan_pos s < length input")
    case True
    from "1.IH"[OF True chess_tokenize_step_ok[OF "1.prems"]] True show ?thesis by simp
  next
    case False
    with "1.prems" show ?thesis
      by (auto simp: chess_tokens_ok_def chess_scan_ok_def sorted_wrt_append)
  qed
qed

lemma chess_tokenize_ok: "chess_tokens_ok (fst (chess_tokenize L input))"
  unfolding chess_tokenize_def by (rule chess_tokenize_loop_ok) (simp add: chess_scan_ok_def)

definition chess_tokenize_exit :: "chess_scan \<Rightarrow> ChessToken list \<times> bool" where
  "chess_tokenize_exit s =
     (cscan_tokens s @
        [\<lparr>ctype = CHESS_END_OF_INPUT, cvalue = [], cposition = int (cscan_pos s)\<rparr>],
      hadLexicalError s)"

lemma chess_tokenize_loop_iterations:
  "\<exists>k \<le> length input - cscan_pos s.
     length input \<le> cscan_pos ((chess_tokenize_step L input ^^ k) s) \<and>
     chess_tokenize_loop L input s = chess_tokenize_exit ((chess_tokenize_step L input ^^ k) s)"
proof (induction L input s rule: chess_tokenize_loop.induct)
  case (1 L input s)
  show ?case
  proof (cases "cscan_pos s < length input")
    case False
    then have "length input \<le> cscan_pos ((chess_tokenize_step L input ^^ 0) s) \<and>
      chess_tokenize_loop L input s = chess_tokenize_exit ((chess_tokenize_step L input ^^ 0) s)"
      by (simp add: chess_tokenize_exit_def)
    then show ?thesis by blast
  next
    case True
    let ?s = "chess_tokenize_step L input s"
    from "1.IH"[OF True] obtain k where k: "k \<le> length input - cscan_pos ?s"
      and e: "length input \<le> cscan_pos ((chess_tokenize_step L input ^^ k) ?s)"
      and r: "chess_tokenize_loop L input ?s
                = chess_tokenize_exit ((chess_tokenize_step L input ^^ k) ?s)"
      by blast
    have f: "(chess_tokenize_step L input ^^ Suc k) s = (chess_tokenize_step L input ^^ k) ?s"
      by (simp add: funpow_swap1)
    from chess_tokenize_step_advances[of s L input] k True
    have "Suc k \<le> length input - cscan_pos s" by simp
    moreover from e f
    have "length input \<le> cscan_pos ((chess_tokenize_step L input ^^ Suc k) s)" by simp
    moreover from r f True
    have "chess_tokenize_loop L input s
            = chess_tokenize_exit ((chess_tokenize_step L input ^^ Suc k) s)" by simp
    ultimately show ?thesis by blast
  qed
qed

subsection \<open>The candidates of the arithmetic lexer\<close>












subsection \<open>The examples\<close>

lemma tokenize_expression:
  "tokenize final_lexer ''x = 1 + (2 * y)''
     = [\<lparr>tok_type = IDENTIFIER, tok_value = ''x'', tok_position = 0\<rparr>,
        \<lparr>tok_type = ASSIGN, tok_value = ''='', tok_position = 2\<rparr>,
        \<lparr>tok_type = NUMBER, tok_value = ''1'', tok_position = 4\<rparr>,
        \<lparr>tok_type = OPERATOR, tok_value = ''+'', tok_position = 6\<rparr>,
        \<lparr>tok_type = LPAREN, tok_value = ''('', tok_position = 8\<rparr>,
        \<lparr>tok_type = NUMBER, tok_value = ''2'', tok_position = 9\<rparr>,
        \<lparr>tok_type = OPERATOR, tok_value = ''*'', tok_position = 11\<rparr>,
        \<lparr>tok_type = IDENTIFIER, tok_value = ''y'', tok_position = 13\<rparr>,
        \<lparr>tok_type = RPAREN, tok_value = '')'', tok_position = 14\<rparr>,
        \<lparr>tok_type = END_OF_INPUT, tok_value = [], tok_position = 15\<rparr>]"
  by code_simp

lemma parse_expression: "parse (tokenize final_lexer ''x = 1 + (2 * y)'') = Some True"
  unfolding tokenize_expression by code_simp

lemma tokenize_identifier123:
  "tokenize final_lexer ''identifier123''
     = [\<lparr>tok_type = IDENTIFIER, tok_value = ''identifier123'', tok_position = 0\<rparr>,
        \<lparr>tok_type = END_OF_INPUT, tok_value = [], tok_position = 13\<rparr>]"
  by code_simp



lemma chess_tokenize_example:
  "chess_tokenize one_letter_lexer ''a a''
     = ([\<lparr>ctype = MOVE_NUMBER, cvalue = ''a'', cposition = 0\<rparr>,
         \<lparr>ctype = MOVE_NUMBER, cvalue = ''a'', cposition = 2\<rparr>,
         \<lparr>ctype = CHESS_END_OF_INPUT, cvalue = [], cposition = 3\<rparr>], False)"
  by code_simp

text \<open>
  C7.  The lexer that the constructor of Final.cpp builds turns \<^verbatim>\<open>x = 1 + (2 * y)\<close> into
  tokens of the kinds IDENTIFIER, ASSIGN, NUMBER, OPERATOR, LPAREN, NUMBER, OPERATOR,
  IDENTIFIER, RPAREN, END_OF_INPUT, in this order, and \<^verbatim>\<open>PDA::parse\<close> returns true on
  them.
\<close>

theorem expression_example_accepted:
  "new_Lexer = Inr final_lexer
   \<and> map tok_type (tokenize final_lexer ''x = 1 + (2 * y)'')
       = [IDENTIFIER, ASSIGN, NUMBER, OPERATOR, LPAREN, NUMBER, OPERATOR, IDENTIFIER, RPAREN,
          END_OF_INPUT]
   \<and> parse (tokenize final_lexer ''x = 1 + (2 * y)'') = Some True"
proof (intro conjI)
  show "new_Lexer = Inr final_lexer" by (rule new_Lexer_built)
  show "map tok_type (tokenize final_lexer ''x = 1 + (2 * y)'')
       = [IDENTIFIER, ASSIGN, NUMBER, OPERATOR, LPAREN, NUMBER, OPERATOR, IDENTIFIER, RPAREN,
          END_OF_INPUT]"
    unfolding tokenize_expression by simp
  show "parse (tokenize final_lexer ''x = 1 + (2 * y)'') = Some True"
    by (rule parse_expression)
qed



text \<open>
  C10.  For every lexer and input, in Final.cpp and in chessNot.cpp: an iteration of
  the loop of \<^verbatim>\<open>tokenize\<close> moves the position forward; the loop is left after at most as
  many iterations as the input has characters; every token before the closing
  end-of-input token has a text that is not empty; and the positions of the tokens
  increase strictly.
\<close>

theorem tokenize_progress:
  "(\<forall>L input.
      (\<forall>s. scan_pos s < scan_pos (tokenize_step L input s))
      \<and> (\<exists>k \<le> length input.
            length input \<le> scan_pos ((tokenize_step L input ^^ k) (Scan 0 [])) \<and>
            tokenize L input = tokenize_exit ((tokenize_step L input ^^ k) (Scan 0 [])))
      \<and> (\<forall>t \<in> set (butlast (tokenize L input)). tok_value t \<noteq> [])
      \<and> sorted_wrt (<) (map tok_position (tokenize L input)))
   \<and> (\<forall>L input.
      (\<forall>s. cscan_pos s < cscan_pos (chess_tokenize_step L input s))
      \<and> (\<exists>k \<le> length input.
            length input \<le> cscan_pos ((chess_tokenize_step L input ^^ k) (ChessScan 0 [] False)) \<and>
            chess_tokenize L input
              = chess_tokenize_exit ((chess_tokenize_step L input ^^ k) (ChessScan 0 [] False)))
      \<and> (\<forall>t \<in> set (butlast (fst (chess_tokenize L input))). cvalue t \<noteq> [])
      \<and> sorted_wrt (<) (map cposition (fst (chess_tokenize L input))))"
proof (intro conjI allI)
  fix L :: Lexer and input :: string and s :: scan
  show "scan_pos s < scan_pos (tokenize_step L input s)" by (rule tokenize_step_advances)
next
  fix L :: Lexer and input :: string
  from tokenize_loop_iterations[of input "Scan 0 []" L]
  show "\<exists>k \<le> length input.
            length input \<le> scan_pos ((tokenize_step L input ^^ k) (Scan 0 [])) \<and>
            tokenize L input = tokenize_exit ((tokenize_step L input ^^ k) (Scan 0 []))"
    by (simp add: tokenize_def)
next
  fix L :: Lexer and input :: string
  from tokenize_ok[of L input]
  show "\<forall>t \<in> set (butlast (tokenize L input)). tok_value t \<noteq> []"
    by (simp add: tokens_ok_def)
next
  fix L :: Lexer and input :: string
  from tokenize_ok[of L input]
  show "sorted_wrt (<) (map tok_position (tokenize L input))" by (simp add: tokens_ok_def)
next
  fix L :: ChessLexer and input :: string and s :: chess_scan
  show "cscan_pos s < cscan_pos (chess_tokenize_step L input s)"
    by (rule chess_tokenize_step_advances)
next
  fix L :: ChessLexer and input :: string
  from chess_tokenize_loop_iterations[of input "ChessScan 0 [] False" L]
  show "\<exists>k \<le> length input.
            length input \<le> cscan_pos ((chess_tokenize_step L input ^^ k) (ChessScan 0 [] False)) \<and>
            chess_tokenize L input
              = chess_tokenize_exit ((chess_tokenize_step L input ^^ k) (ChessScan 0 [] False))"
    by (simp add: chess_tokenize_def)
next
  fix L :: ChessLexer and input :: string
  from chess_tokenize_ok[of L input]
  show "\<forall>t \<in> set (butlast (fst (chess_tokenize L input))). cvalue t \<noteq> []"
    by (simp add: chess_tokens_ok_def)
next
  fix L :: ChessLexer and input :: string
  from chess_tokenize_ok[of L input]
  show "sorted_wrt (<) (map cposition (fst (chess_tokenize L input)))"
    by (simp add: chess_tokens_ok_def)
qed

theorem tokenize_progress_witness:
  "hd (tokenize final_lexer ''identifier123'') \<in> set (butlast (tokenize final_lexer ''identifier123''))
   \<and> tok_value (hd (tokenize final_lexer ''identifier123'')) \<noteq> []
   \<and> hd (fst (chess_tokenize one_letter_lexer ''a a''))
       \<in> set (butlast (fst (chess_tokenize one_letter_lexer ''a a'')))
   \<and> cvalue (hd (fst (chess_tokenize one_letter_lexer ''a a''))) \<noteq> []"
proof -
  have a: "hd (tokenize final_lexer ''identifier123'')
             \<in> set (butlast (tokenize final_lexer ''identifier123''))"
    unfolding tokenize_identifier123 by simp
  have b: "hd (fst (chess_tokenize one_letter_lexer ''a a''))
             \<in> set (butlast (fst (chess_tokenize one_letter_lexer ''a a'')))"
    unfolding chess_tokenize_example by simp
  from tokenize_progress a
  have c: "tok_value (hd (tokenize final_lexer ''identifier123'')) \<noteq> []" by blast
  from tokenize_progress b
  have d: "cvalue (hd (fst (chess_tokenize one_letter_lexer ''a a''))) \<noteq> []" by blast
  from a b c d show ?thesis by blast
qed

end
